theory Spec2Isabelle
  imports Main "HOL-Library.Multiset"
begin

section \<open>Go strings and the regular expressions of the source\<close>

text \<open>
  A Go string is a sequence of bytes; it is modelled as a HOL \<open>string\<close>, one \<open>char\<close> per
  byte. Go compares strings byte by byte, lexicographically.
\<close>

fun go_string_less :: "string \<Rightarrow> string \<Rightarrow> bool" where
  "go_string_less [] [] = False"
| "go_string_less [] (y # ys) = True"
| "go_string_less (x # xs) [] = False"
| "go_string_less (x # xs) (y # ys) =
     (if (of_char x :: nat) < of_char y then True
      else if (of_char y :: nat) < of_char x then False
      else go_string_less xs ys)"

text \<open>
  The regular expressions of the source, as syntax trees. Go's \<open>regexp\<close> package returns
  the leftmost match and, among those, the one a backtracking search finds first; the
  matcher below is that backtracking search: it lists the ways an expression can match at
  a position, best first. A matcher state is the position, the text still to read and
  the capture groups set so far (the most recent binding first).

  The classes of the source that can match a non-ASCII rune (\<open>[^/]\<close>, \<open>[^@]\<close>, \<open>.\<close>) only
  occur under \<open>+\<close>, where matching rune by rune and matching byte by byte accept the same
  texts with the same group boundaries, so the matcher reads bytes.
\<close>

datatype citem = Single char | Range char char

fun in_citem :: "char \<Rightarrow> citem \<Rightarrow> bool" where
  "in_citem c (Single d) = (c = d)"
| "in_citem c (Range lo hi) = ((of_char lo :: nat) \<le> of_char c \<and> (of_char c :: nat) \<le> of_char hi)"

definition in_class :: "citem list \<Rightarrow> char \<Rightarrow> bool" where
  "in_class items c = list_ex (in_citem c) items"

datatype re =
    Bol                 \<comment> \<open>\<open>^\<close>\<close>
  | Eol                 \<comment> \<open>\<open>$\<close> (no multi-line flag: the end of the text)\<close>
  | Lit char
  | Cls "citem list"    \<comment> \<open>\<open>[...]\<close>\<close>
  | NCls "citem list"   \<comment> \<open>\<open>[^...]\<close>\<close>
  | Dot                 \<comment> \<open>\<open>.\<close>: anything but a newline\<close>
  | Cat re re
  | Opt re              \<comment> \<open>\<open>x?\<close>, greedy\<close>
  | Star re             \<comment> \<open>\<open>x*\<close>, greedy\<close>
  | Plus re             \<comment> \<open>\<open>x+\<close>, greedy\<close>
  | Cap nat re          \<comment> \<open>capture group number \<open>n\<close>\<close>

type_synonym mstate = "nat \<times> string \<times> (nat \<times> string) list"

definition step_char :: "(char \<Rightarrow> bool) \<Rightarrow> mstate \<Rightarrow> mstate list" where
  "step_char ok st =
     (case st of
        (p, [], cs) \<Rightarrow> []
      | (p, x # xs, cs) \<Rightarrow> if ok x then [(Suc p, xs, cs)] else [])"

text \<open>
  Greedy repetition: one more round first, stopping second. A round that reads nothing
  is dropped (no repeated expression of the source can match the empty text), so the
  length of the remaining text bounds the number of rounds.
\<close>

primrec iterate :: "nat \<Rightarrow> (mstate \<Rightarrow> mstate list) \<Rightarrow> mstate \<Rightarrow> mstate list" where
  "iterate 0 f st = [st]"
| "iterate (Suc n) f st =
     concat (map (iterate n f) (filter (\<lambda>st'. fst st < fst st') (f st))) @ [st]"

primrec run :: "re \<Rightarrow> mstate \<Rightarrow> mstate list" where
  "run Bol st = (if fst st = 0 then [st] else [])"
| "run Eol st = (if fst (snd st) = [] then [st] else [])"
| "run (Lit c) st = step_char (\<lambda>x. x = c) st"
| "run (Cls items) st = step_char (in_class items) st"
| "run (NCls items) st = step_char (\<lambda>x. \<not> in_class items x) st"
| "run Dot st = step_char (\<lambda>x. x \<noteq> CHR 0x0A) st"
| "run (Cat a b) st = concat (map (run b) (run a st))"
| "run (Opt a) st = run a st @ [st]"
| "run (Star a) st = iterate (length (fst (snd st))) (run a) st"
| "run (Plus a) st =
     concat (map (\<lambda>st'. iterate (length (fst (snd st'))) (run a) st') (run a st))"
| "run (Cap n a) st =
     map (\<lambda>st'. (fst st', fst (snd st'),
                 (n, take (fst st' - fst st) (fst (snd st))) # snd (snd st')))
         (run a st)"

primrec ngroups :: "re \<Rightarrow> nat" where
  "ngroups Bol = 0"
| "ngroups Eol = 0"
| "ngroups (Lit c) = 0"
| "ngroups (Cls items) = 0"
| "ngroups (NCls items) = 0"
| "ngroups Dot = 0"
| "ngroups (Cat a b) = max (ngroups a) (ngroups b)"
| "ngroups (Opt a) = ngroups a"
| "ngroups (Star a) = ngroups a"
| "ngroups (Plus a) = ngroups a"
| "ngroups (Cap n a) = max n (ngroups a)"

definition group :: "(nat \<times> string) list \<Rightarrow> nat \<Rightarrow> string" where
  "group cs i = (case map_of cs i of None \<Rightarrow> [] | Some s \<Rightarrow> s)"

text \<open>
  \<open>regexp.FindStringSubmatch\<close>: the match that starts leftmost, as the list of the whole
  match and of the text of each group (\<open>""\<close> for a group that took no part); the empty
  list (Go's \<open>nil\<close>) when there is no match. \<open>find_from r p s\<close> tries the start positions
  \<open>p\<close>, \<open>p + 1\<close>, ... in turn, \<open>s\<close> being the text from \<open>p\<close> on.
\<close>

definition match_at :: "re \<Rightarrow> nat \<Rightarrow> string \<Rightarrow> string list" where
  "match_at r p s =
     (case run r (p, s, []) of
        [] \<Rightarrow> []
      | st # _ \<Rightarrow> take (fst st - p) s # map (group (snd (snd st))) [1 ..< Suc (ngroups r)])"

fun find_from :: "re \<Rightarrow> nat \<Rightarrow> string \<Rightarrow> string list" where
  "find_from r p [] = match_at r p []"
| "find_from r p (x # xs) =
     (case match_at r p (x # xs) of
        [] \<Rightarrow> find_from r (Suc p) xs
      | m \<Rightarrow> m)"

definition FindStringSubmatch :: "re \<Rightarrow> string \<Rightarrow> string list" where
  "FindStringSubmatch r s = find_from r 0 s"

definition MatchString :: "re \<Rightarrow> string \<Rightarrow> bool" where
  "MatchString r s = (FindStringSubmatch r s \<noteq> [])"

section \<open>Package registry: versions\<close>

datatype VersionComparison = VersionEqual | VersionOlder | VersionNewer | VersionIncomparable

record VersionFilterConfig =
  ExcludePreRelease :: bool
  ExcludeWindows :: bool
  ExcludePatterns :: "string list"
  OnlyStable :: bool

record SemanticVersion =
  Major :: int
  Minor :: int
  Patch :: int
  PreRelease :: string
  Build :: string

definition TrimPrefix :: "string \<Rightarrow> string \<Rightarrow> string" where
  "TrimPrefix s prefix =
     (if take (length prefix) s = prefix then drop (length prefix) s else s)"

text \<open>
  \<open>strconv.Atoi\<close> on decimal digits: the value, or an error (\<open>None\<close>) when the text is not
  a non-empty run of digits or the value does not fit Go's \<open>int\<close>, which has \<open>w\<close> bits
  (\<open>strconv.IntSize\<close>: 64 on the amd64 and arm64 builds, 32 on arm/v7). The source only
  calls it on texts matched by \<open>\d+\<close>.
\<close>

definition digit_val :: "char \<Rightarrow> int" where
  "digit_val c = int (of_char c) - 48"

definition is_digit :: "char \<Rightarrow> bool" where
  "is_digit c = ((48::nat) \<le> of_char c \<and> (of_char c :: nat) \<le> 57)"

definition Atoi :: "nat \<Rightarrow> string \<Rightarrow> int option" where
  "Atoi w s =
     (if s = [] then None
      else if list_all is_digit s
      then (let n = foldl (\<lambda>acc c. acc * 10 + digit_val c) 0 s
            in if n < 2 ^ (w - 1) then Some n else None)
      else None)"

text \<open>\<open>\d\<close> is \<open>[0-9]\<close> in Go; \<open>[a-zA-Z0-9\-\.]\<close> is the class of the two tails.\<close>

definition digit :: re where
  "digit = Cls [Range CHR ''0'' CHR ''9'']"

definition ident :: re where
  "ident = Cls [Range CHR ''a'' CHR ''z'', Range CHR ''A'' CHR ''Z'', Range CHR ''0'' CHR ''9'',
                Single CHR ''-'', Single CHR ''.'']"

text \<open>\<^verbatim>\<open>^(\d+)\.(\d+)\.(\d+)(?:-([a-zA-Z0-9\-\.]+))?(?:\+([a-zA-Z0-9\-\.]+))?$\<close>\<close>

definition parse_re :: re where
  "parse_re =
     Cat Bol (Cat (Cap 1 (Plus digit)) (Cat (Lit CHR ''.'') (Cat (Cap 2 (Plus digit))
       (Cat (Lit CHR ''.'') (Cat (Cap 3 (Plus digit))
       (Cat (Opt (Cat (Lit CHR ''-'') (Cap 4 (Plus ident))))
       (Cat (Opt (Cat (Lit CHR ''+'') (Cap 5 (Plus ident)))) Eol)))))))"

text \<open>\<^verbatim>\<open>^v?(\d+)\.(\d+)\.(\d+)(?:-([a-zA-Z0-9\-\.]+))?(?:\+([a-zA-Z0-9\-\.]+))?$\<close>\<close>

definition semverRegex :: re where
  "semverRegex =
     Cat Bol (Cat (Opt (Lit CHR ''v'')) (Cat (Cap 1 (Plus digit)) (Cat (Lit CHR ''.'')
       (Cat (Cap 2 (Plus digit)) (Cat (Lit CHR ''.'') (Cat (Cap 3 (Plus digit))
       (Cat (Opt (Cat (Lit CHR ''-'') (Cap 4 (Plus ident))))
       (Cat (Opt (Cat (Lit CHR ''+'') (Cap 5 (Plus ident)))) Eol))))))))"

text \<open>\<^verbatim>\<open>^(\d+)\.(\d+)\.(\d+)(?:\+([a-zA-Z0-9\-\.]+))?$\<close>\<close>

definition stable_re :: re where
  "stable_re =
     Cat Bol (Cat (Cap 1 (Plus digit)) (Cat (Lit CHR ''.'') (Cat (Cap 2 (Plus digit))
       (Cat (Lit CHR ''.'') (Cat (Cap 3 (Plus digit))
       (Cat (Opt (Cat (Lit CHR ''+'') (Cap 4 (Plus ident)))) Eol))))))"

text \<open>\<open>parseSemanticVersion\<close>; Go's \<open>nil\<close> result is \<open>None\<close>.\<close>

definition parseSemanticVersion :: "nat \<Rightarrow> string \<Rightarrow> SemanticVersion option" where
  "parseSemanticVersion w version0 =
     (let version = TrimPrefix version0 ''v'';
          matches = FindStringSubmatch parse_re version
      in if length matches < 4 then None
         else (case Atoi w (matches ! 1) of
                 None \<Rightarrow> None
               | Some major \<Rightarrow>
            (case Atoi w (matches ! 2) of
                 None \<Rightarrow> None
               | Some minor \<Rightarrow>
            (case Atoi w (matches ! 3) of
                 None \<Rightarrow> None
               | Some patch \<Rightarrow>
                   Some \<lparr>Major = major, Minor = minor, Patch = patch,
                         PreRelease = (if 4 < length matches then matches ! 4 else []),
                         Build = (if 5 < length matches then matches ! 5 else [])\<rparr>))))"

text \<open>\<open>compareVersions\<close>, branch by branch.\<close>

definition compareVersions :: "nat \<Rightarrow> string \<Rightarrow> string \<Rightarrow> VersionComparison" where
  "compareVersions w version1 version2 =
     (if version1 = version2 then VersionEqual
      else if version1 = ''latest'' \<or> version2 = ''latest'' then VersionIncomparable
      else (case (parseSemanticVersion w version1, parseSemanticVersion w version2) of
              (Some v1, Some v2) \<Rightarrow>
                if Major v1 < Major v2 then VersionOlder
                else if Major v1 > Major v2 then VersionNewer
                else if Minor v1 < Minor v2 then VersionOlder
                else if Minor v1 > Minor v2 then VersionNewer
                else if Patch v1 < Patch v2 then VersionOlder
                else if Patch v1 > Patch v2 then VersionNewer
                else if PreRelease v1 = [] \<and> PreRelease v2 \<noteq> [] then VersionNewer
                else if PreRelease v1 \<noteq> [] \<and> PreRelease v2 = [] then VersionOlder
                else if PreRelease v1 \<noteq> [] \<and> PreRelease v2 \<noteq> [] then
                  (if go_string_less (PreRelease v1) (PreRelease v2) then VersionOlder
                   else if go_string_less (PreRelease v2) (PreRelease v1) then VersionNewer
                   else VersionEqual)
                else VersionEqual
            | _ \<Rightarrow>
                if go_string_less version1 version2 then VersionOlder
                else if go_string_less version2 version1 then VersionNewer
                else VersionEqual))"

section \<open>Package registry: filtering and the latest tag\<close>

text \<open>
  \<open>strings.ToLower\<close> and \<open>strings.Contains\<close>. Tags that reach \<open>filterUnwantedVersions\<close>
  match \<open>semverRegex\<close> and are ASCII; \<open>ToLower\<close> is modelled on ASCII letters, which is
  what Go does on ASCII text. (The built-in exclusion patterns are ASCII; a custom
  pattern with letters beyond ASCII is outside this model.)
\<close>

definition lower_char :: "char \<Rightarrow> char" where
  "lower_char c =
     (if (65::nat) \<le> of_char c \<and> (of_char c :: nat) \<le> 90
      then char_of (of_char c + (32::nat)) else c)"

definition ToLower :: "string \<Rightarrow> string" where
  "ToLower s = map lower_char s"

fun Contains :: "string \<Rightarrow> string \<Rightarrow> bool" where
  "Contains [] substr = (substr = [])"
| "Contains (x # xs) substr =
     (if take (length substr) (x # xs) = substr then True else Contains xs substr)"

definition filterSemanticVersionTags :: "string list \<Rightarrow> string list" where
  "filterSemanticVersionTags tags = filter (MatchString semverRegex) tags"

definition isStableSemanticVersion :: "string \<Rightarrow> bool" where
  "isStableSemanticVersion tag = MatchString stable_re (TrimPrefix tag ''v'')"

definition excludePatterns :: "VersionFilterConfig \<Rightarrow> string list" where
  "excludePatterns cfg =
     (if ExcludePreRelease cfg
      then [''rc'', ''alpha'', ''beta'', ''dev'', ''snapshot'', ''nightly'', ''pre''] else [])
     @ (if ExcludeWindows cfg
        then [''windows'', ''windowsservercore'', ''nanoserver'', ''ltsc'', ''insider''] else [])
     @ ExcludePatterns cfg"

definition shouldExclude :: "VersionFilterConfig \<Rightarrow> string \<Rightarrow> bool" where
  "shouldExclude cfg tag =
     (if list_ex (\<lambda>pattern. Contains (ToLower tag) (ToLower pattern)) (excludePatterns cfg)
      then True
      else if OnlyStable cfg then \<not> isStableSemanticVersion tag
      else False)"

definition filterUnwantedVersions :: "VersionFilterConfig \<Rightarrow> string list \<Rightarrow> string list" where
  "filterUnwantedVersions cfg tags = filter (\<lambda>tag. \<not> shouldExclude cfg tag) tags"

definition findHighestSemanticVersion :: "nat \<Rightarrow> string list \<Rightarrow> string" where
  "findHighestSemanticVersion w tags =
     (case tags of
        [] \<Rightarrow> []
      | t # ts \<Rightarrow>
          foldl (\<lambda>highest tag.
                   if compareVersions w highest tag = VersionOlder then tag else highest) t ts)"

datatype error =
    NoTagsAvailable                 \<comment> \<open>"no tags available"\<close>
  | RateLimiterError string         \<comment> \<open>"rate limiter error: ..."\<close>
  | GetImageTagsError string        \<comment> \<open>"failed to get image tags: ..."\<close>
  | AllImageChecksFailed nat        \<comment> \<open>"all image checks failed: n errors"\<close>

definition findLatestTag :: "nat \<Rightarrow> VersionFilterConfig \<Rightarrow> string list \<Rightarrow> string \<Rightarrow> error + string" where
  "findLatestTag w cfg tags currentTag =
     (case tags of
        [] \<Rightarrow> Inl NoTagsAvailable
      | first # _ \<Rightarrow>
          if currentTag = ''latest'' then Inr (findHighestSemanticVersion w tags)
          else (let semverTags = filterSemanticVersionTags tags;
                    filteredTags = filterUnwantedVersions cfg semverTags
                in if length filteredTags = 0
                   then (if ''latest'' \<in> set tags then Inr ''latest'' else Inr first)
                   else Inr (findHighestSemanticVersion w filteredTags)))"

section \<open>Package registry: the client and the update check\<close>

text \<open>
  \<open>rate.NewLimiter(rate.Limit(n), burst)\<close>: a token bucket refilled at \<open>limit\<close> events per
  second (Go's \<open>rate.Limit\<close> counts events per second), holding at most \<open>burst\<close> tokens.
  The source only builds a limit from an \<open>int\<close>, so the limit is kept as that integer;
  \<open>rate.Limit\<close> is a \<open>float64\<close>, which holds every integer up to \<open>2^53\<close> exactly (every
  \<open>requestsPerMinute\<close> up to \<open>60 * 2^53\<close>), and rounds beyond.
\<close>

record Limiter =
  limit :: int
  burst :: int

record Client =
  rateLimiter :: Limiter
  versionFilters :: VersionFilterConfig

text \<open>Go's \<open>/\<close> on \<open>int\<close> truncates towards zero.\<close>

definition go_div :: "int \<Rightarrow> int \<Rightarrow> int" where
  "go_div a b = sgn a * sgn b * (\<bar>a\<bar> div \<bar>b\<bar>)"

definition NewLimiter :: "int \<Rightarrow> int \<Rightarrow> Limiter" where
  "NewLimiter r b = \<lparr>limit = r, burst = b\<rparr>"

definition NewClient :: "int \<Rightarrow> int \<Rightarrow> Client" where
  "NewClient requestsPerMinute burst0 =
     \<lparr>rateLimiter = NewLimiter (go_div requestsPerMinute 60) burst0,
      versionFilters = \<lparr>ExcludePreRelease = True, ExcludeWindows = True,
                        ExcludePatterns = [], OnlyStable = True\<rparr>\<rparr>"

definition NewClientWithFilters :: "int \<Rightarrow> int \<Rightarrow> VersionFilterConfig \<Rightarrow> Client" where
  "NewClientWithFilters requestsPerMinute burst0 filters =
     \<lparr>rateLimiter = NewLimiter (go_div requestsPerMinute 60) burst0,
      versionFilters = filters\<rparr>"

text \<open>The events a limiter admits per minute in the long run: sixty seconds' refill.\<close>

definition events_per_minute :: "Limiter \<Rightarrow> int" where
  "events_per_minute l = limit l * 60"

text \<open>
  \<open>ImageUpdateInfo\<close>; its \<open>Registry\<close> and \<open>Repository\<close> fields are \<open>info_Registry\<close> and
  \<open>info_Repository\<close> here, the plain names being those of \<open>ImageReference\<close> below.
  \<open>LastUpdated\<close> is a time; the check never sets it, so it stays at the zero time.
\<close>

record ImageUpdateInfo =
  CurrentTag :: string
  LatestTag :: string
  AvailableTags :: "string list"
  LastUpdated :: nat
  HasUpdate :: bool
  info_Registry :: string
  info_Repository :: string

text \<open>
  What the outside world answers during one check: what \<open>rateLimiter.Wait(ctx)\<close> does
  (it grants a token, or fails, on cancellation or a deadline, or never returns: a
  limiter whose limit is 0 hands out no token once the burst is spent, and a context
  without a deadline that nobody cancels does not stop the wait), and the result of
  \<open>getImageTags\<close>, the registry's HTTP answer, for a registry and a repository (the HTTP
  client has a timeout, so this call returns).
\<close>

datatype wait_result = Granted | WaitError string | WaitForever

record world =
  Wait :: wait_result
  getImageTags :: "string \<Rightarrow> string \<Rightarrow> string + string list"

text \<open>\<open>CheckImageUpdate\<close>; \<open>None\<close> when the call never returns.\<close>

definition CheckImageUpdate ::
  "nat \<Rightarrow> Client \<Rightarrow> world \<Rightarrow> string \<Rightarrow> string \<Rightarrow> string
     \<Rightarrow> (error + ImageUpdateInfo) option" where
  "CheckImageUpdate w c env registry repository currentTag =
     (case Wait env of
        WaitForever \<Rightarrow> None
      | WaitError err \<Rightarrow> Some (Inl (RateLimiterError err))
      | Granted \<Rightarrow>
          (let updateInfo = \<lparr>CurrentTag = currentTag, LatestTag = [], AvailableTags = [],
                              LastUpdated = 0, HasUpdate = False,
                              info_Registry = registry, info_Repository = repository\<rparr>
           in case getImageTags env registry repository of
                Inl err \<Rightarrow> Some (Inl (GetImageTagsError err))
              | Inr tags \<Rightarrow>
                  (let updateInfo1 = updateInfo\<lparr>AvailableTags := tags\<rparr>
                   in if length tags = 0 then Some (Inr updateInfo1)
                      else (case findLatestTag w (versionFilters c) tags currentTag of
                              Inl err \<Rightarrow> Some (Inr updateInfo1)
                            | Inr latestTag \<Rightarrow>
                                Some (Inr (updateInfo1
                                      \<lparr>LatestTag := latestTag,
                                       HasUpdate :=
                                         (compareVersions w currentTag latestTag = VersionOlder)\<rparr>))))))"

record ImageCheck =
  check_Registry :: string
  check_Repository :: string
  check_Tag :: string

record ImageUpdateResult =
  UpdateInfo :: "ImageUpdateInfo option"
  Error :: "error option"
  Image :: ImageCheck

text \<open>
  The call of \<open>CheckImageUpdate\<close> that the goroutine of an image makes, against the world
  it meets, and the result the goroutine sends when the call returns.
\<close>

definition check_job ::
  "nat \<Rightarrow> Client \<Rightarrow> ImageCheck \<times> world \<Rightarrow> (error + ImageUpdateInfo) option" where
  "check_job w c job =
     CheckImageUpdate w c (snd job) (check_Registry (fst job))
       (check_Repository (fst job)) (check_Tag (fst job))"

definition goroutine :: "nat \<Rightarrow> Client \<Rightarrow> ImageCheck \<times> world \<Rightarrow> ImageUpdateResult option" where
  "goroutine w c job =
     (case check_job w c job of
        None \<Rightarrow> None
      | Some (Inl err) \<Rightarrow> Some \<lparr>UpdateInfo = None, Error = Some err, Image = fst job\<rparr>
      | Some (Inr info) \<Rightarrow> Some \<lparr>UpdateInfo = Some info, Error = None, Image = fst job\<rparr>)"

text \<open>The body of the collecting loop, for one result read from the channel.\<close>

definition collect_step ::
  "ImageUpdateInfo list \<times> error list \<Rightarrow> ImageUpdateResult \<Rightarrow> ImageUpdateInfo list \<times> error list" where
  "collect_step acc result =
     (case Error result of
        Some err \<Rightarrow> (fst acc, snd acc @ [err])
      | None \<Rightarrow>
          (case UpdateInfo result of
             Some info \<Rightarrow> (fst acc @ [info], snd acc)
           | None \<Rightarrow> acc))"

text \<open>
  \<open>CheckMultipleImages\<close> starts one goroutine per image and then reads \<open>len(images)\<close>
  results. The goroutines, the semaphore \<open>sem\<close> (a channel of capacity \<open>maxConcurrency\<close>)
  and the channel \<open>results\<close> (of capacity \<open>len(images)\<close>, so that sending to it never
  waits) are a transition system. A goroutine is
  \<^item> \<open>Queued\<close>: at \<open>sem <- struct{}{}\<close>, which goes through when fewer than \<open>maxConcurrency\<close>
    goroutines hold a slot;
  \<^item> \<open>InCheck\<close>: holding a slot, inside \<open>CheckImageUpdate\<close>;
  \<^item> \<open>Sent\<close>: its result is in \<open>results\<close>, the deferred \<open><-sem\<close> still to run;
  \<^item> \<open>Released\<close>: done.
  The collecting loop has read \<open>loop_i\<close> results and appended to \<open>updateInfos\<close> and
  \<open>errors\<close>.
\<close>

datatype gstate = Queued | InCheck | Sent | Released

record batch =
  goroutines :: "gstate list"
  results :: "ImageUpdateResult list"
  loop_i :: nat
  updateInfos :: "ImageUpdateInfo list"
  errors :: "error list"

datatype batch_event =
    Acquire nat        \<comment> \<open>goroutine \<open>k\<close> gets a slot of the semaphore\<close>
  | CheckReturns nat   \<comment> \<open>the check of goroutine \<open>k\<close> returns and its result is sent\<close>
  | Release nat        \<comment> \<open>goroutine \<open>k\<close> gives its slot back\<close>
  | Receive            \<comment> \<open>the collecting loop reads one result\<close>

definition holds_slot :: "gstate \<Rightarrow> bool" where
  "holds_slot g = (g = InCheck \<or> g = Sent)"

definition slots :: "batch \<Rightarrow> nat" where
  "slots s = length (filter holds_slot (goroutines s))"

text \<open>
  When a step can happen. \<open>outs\<close> holds, per goroutine, the result its check returns, or
  \<open>None\<close> for a check that never returns: that goroutine stays \<open>InCheck\<close>.
\<close>

fun enabled :: "int \<Rightarrow> ImageUpdateResult option list \<Rightarrow> batch \<Rightarrow> batch_event \<Rightarrow> bool" where
  "enabled mc outs s (Acquire k) =
     (k < length (goroutines s) \<and> goroutines s ! k = Queued \<and> int (slots s) < mc)"
| "enabled mc outs s (CheckReturns k) =
     (k < length (goroutines s) \<and> k < length outs \<and> goroutines s ! k = InCheck
      \<and> outs ! k \<noteq> None)"
| "enabled mc outs s (Release k) =
     (k < length (goroutines s) \<and> goroutines s ! k = Sent)"
| "enabled mc outs s Receive =
     (results s \<noteq> [] \<and> loop_i s < length (goroutines s))"

fun effect :: "ImageUpdateResult option list \<Rightarrow> batch \<Rightarrow> batch_event \<Rightarrow> batch" where
  "effect outs s (Acquire k) = s\<lparr>goroutines := (goroutines s)[k := InCheck]\<rparr>"
| "effect outs s (CheckReturns k) =
     (case outs ! k of
        None \<Rightarrow> s
      | Some r \<Rightarrow> s\<lparr>goroutines := (goroutines s)[k := Sent], results := results s @ [r]\<rparr>)"
| "effect outs s (Release k) = s\<lparr>goroutines := (goroutines s)[k := Released]\<rparr>"
| "effect outs s Receive =
     (case results s of
        [] \<Rightarrow> s
      | r # rest \<Rightarrow>
          (let acc = collect_step (updateInfos s, errors s) r
           in s\<lparr>results := rest, loop_i := loop_i s + 1,
                updateInfos := fst acc, errors := snd acc\<rparr>))"

definition batch_step ::
  "int \<Rightarrow> ImageUpdateResult option list \<Rightarrow> batch \<Rightarrow> batch_event \<Rightarrow> batch" where
  "batch_step mc outs s ev = (if enabled mc outs s ev then effect outs s ev else s)"

definition batch_init :: "nat \<Rightarrow> batch" where
  "batch_init n =
     \<lparr>goroutines = replicate n Queued, results = [], loop_i = 0, updateInfos = [], errors = []\<rparr>"

text \<open>The state after a schedule: a sequence of steps, those that cannot happen being skipped.\<close>

definition batch_exec ::
  "int \<Rightarrow> ImageUpdateResult option list \<Rightarrow> batch_event list \<Rightarrow> batch" where
  "batch_exec mc outs sched = foldl (batch_step mc outs) (batch_init (length outs)) sched"

text \<open>A run: a schedule of which every step can happen when its turn comes.\<close>

fun run_from :: "int \<Rightarrow> ImageUpdateResult option list \<Rightarrow> batch \<Rightarrow> batch_event list \<Rightarrow> bool" where
  "run_from mc outs s [] = True"
| "run_from mc outs s (ev # evs) =
     (if enabled mc outs s ev then run_from mc outs (batch_step mc outs s ev) evs else False)"

definition is_run :: "int \<Rightarrow> ImageUpdateResult option list \<Rightarrow> batch_event list \<Rightarrow> bool" where
  "is_run mc outs sched = run_from mc outs (batch_init (length outs)) sched"

text \<open>No step can happen: nothing will ever change.\<close>

definition all_events :: "nat \<Rightarrow> batch_event list" where
  "all_events n = Receive # concat (map (\<lambda>k. [Acquire k, CheckReturns k, Release k]) [0 ..< n])"

definition quiescent :: "int \<Rightarrow> ImageUpdateResult option list \<Rightarrow> batch \<Rightarrow> bool" where
  "quiescent mc outs s =
     list_all (\<lambda>ev. \<not> enabled mc outs s ev) (all_events (length (goroutines s)))"

text \<open>What the function returns once the loop has read \<open>len(images)\<close> results.\<close>

definition batch_result :: "batch \<Rightarrow> error + ImageUpdateInfo list" where
  "batch_result s =
     (if length (errors s) > 0 \<and> length (updateInfos s) = 0
      then Inl (AllImageChecksFailed (length (errors s)))
      else Inr (updateInfos s))"

text \<open>
  \<open>CheckMultipleImages\<close> on the images and worlds \<open>jobs\<close>, observed after a schedule of its
  goroutines: it has returned a value, or has panicked (\<open>make\<close> with a negative
  capacity), or is blocked for good (the loop has not read all results and no step can
  happen), or is still running.
\<close>

datatype 'a outcome = Returned 'a | Panicked | Deadlocked | Running

definition CheckMultipleImages ::
  "nat \<Rightarrow> Client \<Rightarrow> (ImageCheck \<times> world) list \<Rightarrow> int \<Rightarrow> batch_event list
     \<Rightarrow> (error + ImageUpdateInfo list) outcome" where
  "CheckMultipleImages w c jobs maxConcurrency sched =
     (if length jobs = 0 then Returned (Inr [])
      else if maxConcurrency < 0 then Panicked
      else (let outs = map (goroutine w c) jobs;
                s = batch_exec maxConcurrency outs sched
            in if loop_i s = length jobs then Returned (batch_result s)
               else if quiescent maxConcurrency outs s then Deadlocked
               else Running))"

text \<open>
  What holds in every state of a batch. The results that goroutines have sent are those
  of the goroutines that are \<open>Sent\<close> or \<open>Released\<close>; each of them is either still in the
  channel or has been read by the loop, and the loop's two slices are what the loop body
  makes of the results read so far.
\<close>

definition has_sent :: "gstate \<Rightarrow> bool" where
  "has_sent g = (g = Sent \<or> g = Released)"

definition sent_results :: "ImageUpdateResult option list \<Rightarrow> gstate list \<Rightarrow> ImageUpdateResult list" where
  "sent_results outs gs =
     List.map_filter (\<lambda>p. if has_sent (snd p) then fst p else None) (zip outs gs)"

definition batch_inv :: "ImageUpdateResult option list \<Rightarrow> batch \<Rightarrow> bool" where
  "batch_inv outs s =
     (length (goroutines s) = length outs
      \<and> (\<exists>got. loop_i s = length got
              \<and> (updateInfos s, errors s) = foldl collect_step ([], []) got
              \<and> mset got + mset (results s) = mset (sent_results outs (goroutines s))))"

text \<open>The steps a batch still has to take: three per queued goroutine, one per result to read.\<close>

fun weight :: "gstate \<Rightarrow> nat" where
  "weight Queued = 3"
| "weight InCheck = 2"
| "weight Sent = 1"
| "weight Released = 0"

definition remaining :: "batch \<Rightarrow> nat" where
  "remaining s =
     sum_list (map weight (goroutines s)) + (length (goroutines s) - loop_i s)"

text \<open>The verdicts of the checks that succeed, for a batch of images and their worlds.\<close>

definition verdicts :: "nat \<Rightarrow> Client \<Rightarrow> (ImageCheck \<times> world) list \<Rightarrow> ImageUpdateInfo list" where
  "verdicts w c jobs =
     List.map_filter (\<lambda>job. case check_job w c job of
                              None \<Rightarrow> None
                            | Some (Inl err) \<Rightarrow> None
                            | Some (Inr info) \<Rightarrow> Some info) jobs"

definition check_fails :: "nat \<Rightarrow> Client \<Rightarrow> ImageCheck \<times> world \<Rightarrow> bool" where
  "check_fails w c job = (case check_job w c job of Some (Inl err) \<Rightarrow> True | _ \<Rightarrow> False)"

definition check_succeeds :: "nat \<Rightarrow> Client \<Rightarrow> ImageCheck \<times> world \<Rightarrow> bool" where
  "check_succeeds w c job = (case check_job w c job of Some (Inr info) \<Rightarrow> True | _ \<Rightarrow> False)"

definition check_returns :: "nat \<Rightarrow> Client \<Rightarrow> ImageCheck \<times> world \<Rightarrow> bool" where
  "check_returns w c job = (check_job w c job \<noteq> None)"

text \<open>
  A batch of ten images on which the registry fails for one (the fourth) and answers
  with two tags for the others, and a schedule for it with three slots: the goroutines
  enter three at a time, the results arrive out of order.
\<close>

definition ten_job :: "nat \<Rightarrow> ImageCheck \<times> world" where
  "ten_job k =
     (\<lparr>check_Registry = ''docker.io'',
        check_Repository = ''library/app'' @ [char_of (48 + k)],
        check_Tag = ''1.0.0''\<rparr>,
      \<lparr>Wait = Granted,
        getImageTags = (\<lambda>registry repository.
           if k = 3 then Inl ''connection refused''
           else Inr [''1.0.0'', ''1.1.0''])\<rparr>)"

definition ten_jobs :: "(ImageCheck \<times> world) list" where
  "ten_jobs = map ten_job [0 ..< 10]"

definition ten_schedule :: "batch_event list" where
  "ten_schedule =
     [Acquire 2, Acquire 0, Acquire 1, CheckReturns 1, CheckReturns 2, Release 1, Acquire 3,
      Receive, CheckReturns 3, CheckReturns 0, Release 0, Release 2, Release 3, Receive,
      Acquire 9, Acquire 4, Acquire 5, CheckReturns 9, Receive, Receive, Release 9,
      CheckReturns 5, CheckReturns 4, Release 4, Release 5, Acquire 6, Acquire 7, Acquire 8,
      CheckReturns 8, CheckReturns 7, CheckReturns 6, Receive, Receive, Receive, Receive,
      Release 6, Receive, Receive]"

text \<open>
  A batch of two images: the check of the first succeeds, the check of the second waits
  for the limiter and never returns.
\<close>

definition two_jobs :: "(ImageCheck \<times> world) list" where
  "two_jobs =
     [(\<lparr>check_Registry = ''docker.io'', check_Repository = ''library/nginx'',
        check_Tag = ''1.0.0''\<rparr>,
       \<lparr>Wait = Granted, getImageTags = (\<lambda>registry repository. Inr [''1.0.0'', ''1.1.0''])\<rparr>),
      (\<lparr>check_Registry = ''docker.io'', check_Repository = ''library/redis'',
        check_Tag = ''7.0.0''\<rparr>,
       \<lparr>Wait = WaitForever, getImageTags = (\<lambda>registry repository. Inr [''7.0.0''])\<rparr>)]"

section \<open>Package docker: image references\<close>

record ImageReference =
  Registry :: string
  Namespace :: string
  Repository :: string
  Tag :: string
  Digest :: string
  FullName :: string

datatype parse_error =
    EmptyImageReference             \<comment> \<open>"empty image reference"\<close>
  | InvalidImageReference string    \<comment> \<open>"invalid image reference format: ..."\<close>

text \<open>
  \<^verbatim>\<open>^(?:([^/]+(?:\.[^/]+)*(?::[0-9]+)?)/)?(?:([^/]+)/)?([^:@/]+)(?::([^@]+))?(?:@(.+))?$\<close>
\<close>

definition image_re :: re where
  "image_re =
     Cat Bol
    (Cat (Opt (Cat (Cap 1 (Cat (Plus (NCls [Single CHR ''/'']))
                          (Cat (Star (Cat (Lit CHR ''.'') (Plus (NCls [Single CHR ''/'']))))
                               (Opt (Cat (Lit CHR '':'') (Plus (Cls [Range CHR ''0'' CHR ''9''])))))))
                   (Lit CHR ''/'')))
    (Cat (Opt (Cat (Cap 2 (Plus (NCls [Single CHR ''/'']))) (Lit CHR ''/'')))
    (Cat (Cap 3 (Plus (NCls [Single CHR '':'', Single CHR ''@'', Single CHR ''/''])))
    (Cat (Opt (Cat (Lit CHR '':'') (Cap 4 (Plus (NCls [Single CHR ''@''])))))
    (Cat (Opt (Cat (Lit CHR ''@'') (Cap 5 (Plus Dot))))
         Eol)))))"

definition ParseImageReference :: "string \<Rightarrow> parse_error + ImageReference" where
  "ParseImageReference img =
     (if img = [] then Inl EmptyImageReference
      else (let matches = FindStringSubmatch image_re img
            in if length matches = 0 then Inl (InvalidImageReference img)
               else (let registry0 = matches ! 1;
                         namespace = matches ! 2;
                         repository = matches ! 3;
                         tag0 = matches ! 4;
                         digest = matches ! 5;
                         registry = (if registry0 = [] then ''docker.io'' else registry0);
                         tag = (if tag0 = [] \<and> digest = [] then ''latest'' else tag0);
                         fullRepo0 = (if namespace \<noteq> [] then namespace @ ''/'' @ repository
                                      else repository);
                         fullRepo = (if registry = ''docker.io'' \<and> namespace = []
                                        \<and> \<not> Contains repository ''/''
                                     then ''library/'' @ repository else fullRepo0)
                     in Inr \<lparr>Registry = registry, Namespace = namespace, Repository = fullRepo,
                             Tag = tag, Digest = digest, FullName = img\<rparr>)))"

section \<open>Package scheduler: a task and the goroutines that execute it\<close>

text \<open>
  The fields of \<open>Task\<close> that an execution reads or writes. (\<open>ID\<close>, \<open>Name\<close>, \<open>Schedule\<close>,
  \<open>Handler\<close> and \<open>cronEntryID\<close> are fixed while the task runs; \<open>NextRun\<close> is never
  written.) Times are clock readings.
\<close>

record Task =
  LastRun :: nat
  RunCount :: int
  ErrorCount :: int
  IsRunning :: bool

text \<open>
  An execution is either the closure built by \<open>wrapTaskHandler\<close>, called by cron at a
  firing, or a call of \<open>RunTask\<close> that has found the task. Both run the same steps on the
  task they point to; every access to the task's fields is inside a
  \<open>task.mu.Lock()\<close> ... \<open>task.mu.Unlock()\<close> section, so each such section is one atomic step
  and the goroutines interleave between the sections:
  \<^item> \<open>AtCheck\<close>: before the section that tests \<open>IsRunning\<close> and sets it;
  \<^item> \<open>AtStart\<close>: the flag is set, before \<open>startTime := time.Now()\<close>;
  \<^item> \<open>InHandler\<close>: inside \<open>task.Handler(ctx)\<close>, started at the given time;
  \<^item> \<open>AtStats\<close>: the handler has returned, before the section that updates the counters;
  \<^item> \<open>AtDefer\<close>: before the deferred section that clears \<open>IsRunning\<close>;
  \<^item> \<open>Ended\<close>: returned.
\<close>

datatype caller = Scheduled | OnDemand

datatype handler_result = ReturnsNil | ReturnsError | HandlerPanics

datatype ending = Skipped | AlreadyRunningError | Ran handler_result

datatype pc =
    AtCheck
  | AtStart
  | InHandler nat
  | AtStats nat handler_result
  | AtDefer handler_result
  | Ended ending

record sched_state =
  task :: Task
  threads :: "(caller \<times> pc) list"
  now :: nat

datatype event =
    Fire                          \<comment> \<open>cron calls the wrapped handler in a new goroutine\<close>
  | RunTaskCall                   \<comment> \<open>somebody calls \<open>RunTask\<close> for this task\<close>
  | Tick                          \<comment> \<open>the clock advances\<close>
  | Step nat                      \<comment> \<open>goroutine \<open>i\<close> takes its next step\<close>
  | HandlerEnds nat handler_result  \<comment> \<open>the handler run by goroutine \<open>i\<close> ends\<close>

definition set_pc :: "sched_state \<Rightarrow> nat \<Rightarrow> pc \<Rightarrow> sched_state" where
  "set_pc s i p = s\<lparr>threads := (threads s)[i := (fst (threads s ! i), p)]\<rparr>"

definition step_thread :: "sched_state \<Rightarrow> nat \<Rightarrow> sched_state" where
  "step_thread s i =
     (case snd (threads s ! i) of
        AtCheck \<Rightarrow>
          if IsRunning (task s)
          then set_pc s i (Ended (case fst (threads s ! i) of
                                    Scheduled \<Rightarrow> Skipped
                                  | OnDemand \<Rightarrow> AlreadyRunningError))
          else set_pc (s\<lparr>task := (task s)\<lparr>IsRunning := True\<rparr>\<rparr>) i AtStart
      | AtStart \<Rightarrow> set_pc s i (InHandler (now s))
      | InHandler startTime \<Rightarrow> s
      | AtStats startTime r \<Rightarrow>
          set_pc (s\<lparr>task := (task s)
                     \<lparr>LastRun := startTime,
                      RunCount := RunCount (task s) + 1,
                      ErrorCount := (if r = ReturnsError then ErrorCount (task s) + 1
                                     else ErrorCount (task s))\<rparr>\<rparr>) i (AtDefer r)
      | AtDefer r \<Rightarrow> set_pc (s\<lparr>task := (task s)\<lparr>IsRunning := False\<rparr>\<rparr>) i (Ended (Ran r))
      | Ended e \<Rightarrow> s)"

definition handler_ends :: "sched_state \<Rightarrow> nat \<Rightarrow> handler_result \<Rightarrow> sched_state" where
  "handler_ends s i r =
     (case snd (threads s ! i) of
        InHandler startTime \<Rightarrow>
          (if r = HandlerPanics then set_pc s i (AtDefer r) else set_pc s i (AtStats startTime r))
      | _ \<Rightarrow> s)"

fun step :: "sched_state \<Rightarrow> event \<Rightarrow> sched_state" where
  "step s Fire = s\<lparr>threads := threads s @ [(Scheduled, AtCheck)]\<rparr>"
| "step s RunTaskCall = s\<lparr>threads := threads s @ [(OnDemand, AtCheck)]\<rparr>"
| "step s Tick = s\<lparr>now := Suc (now s)\<rparr>"
| "step s (Step i) = (if i < length (threads s) then step_thread s i else s)"
| "step s (HandlerEnds i r) = (if i < length (threads s) then handler_ends s i r else s)"

text \<open>The task as \<open>AddTask\<close> creates it, and the state after a sequence of events.\<close>

definition new_task :: Task where
  "new_task = \<lparr>LastRun = 0, RunCount = 0, ErrorCount = 0, IsRunning = False\<rparr>"

definition exec :: "nat \<Rightarrow> event list \<Rightarrow> sched_state" where
  "exec t0 evs = foldl step \<lparr>task = new_task, threads = [], now = t0\<rparr> evs"

text \<open>An execution is active from the moment it has set the flag until it has cleared it.\<close>

fun active :: "pc \<Rightarrow> bool" where
  "active AtCheck = False"
| "active AtStart = True"
| "active (InHandler t) = True"
| "active (AtStats t r) = True"
| "active (AtDefer r) = True"
| "active (Ended e) = False"

definition active_count :: "sched_state \<Rightarrow> nat" where
  "active_count s = length (filter (\<lambda>th. active (snd th)) (threads s))"

text \<open>The flag is set exactly while one execution is active, and then only one is.\<close>

definition flag_inv :: "sched_state \<Rightarrow> bool" where
  "flag_inv s = (active_count s = (if IsRunning (task s) then 1 else 0))"

section \<open>Facts about strings and version parsing\<close>

lemma go_string_less_lexord:
  "go_string_less xs ys \<longleftrightarrow> (map of_char xs, map of_char ys) \<in> lexord {(a::nat, b). a < b}"
  by (induction xs ys rule: go_string_less.induct) auto


lemma go_string_less_Nil: "\<not> go_string_less xs []"
  by (cases xs) auto


lemma find_parse_re_empty: "FindStringSubmatch parse_re [] = []"
  by code_simp


lemma parseSemanticVersion_empty: "parseSemanticVersion w [] = None"
  by (simp add: parseSemanticVersion_def TrimPrefix_def find_parse_re_empty)

section \<open>Comparing versions\<close>



section \<open>The latest tag\<close>

lemma compareVersions_latest_left:
  "compareVersions w ''latest'' t = (if t = ''latest'' then VersionEqual else VersionIncomparable)"
  by (simp add: compareVersions_def)

lemma compareVersions_empty_right: "compareVersions w t [] \<noteq> VersionOlder"
  by (simp add: compareVersions_def parseSemanticVersion_empty go_string_less_Nil
      split: option.splits)

text \<open>
  C1. With the current tag \<open>latest\<close> the filters are not applied and the tags are scanned
  with \<open>compareVersions\<close>; on the tags \<open>latest\<close>, \<open>2.0.0\<close>, \<open>1.0.0-beta\<close> the scan starts
  at \<open>latest\<close>, which compares as incomparable with every other tag and is never
  replaced, so the result is \<open>latest\<close> for every filter configuration and integer size.
  (On a non-empty list the result is always that of the scan, whatever the filters.)
\<close>

theorem findLatestTag_latest_first:
  "findLatestTag w cfg (t # ts) ''latest'' = Inr (findHighestSemanticVersion w (t # ts))
   \<and> findLatestTag w cfg [''latest'', ''2.0.0'', ''1.0.0-beta''] ''latest'' = Inr ''latest''"
  by (simp add: findLatestTag_def findHighestSemanticVersion_def compareVersions_latest_left)

text \<open>
  C7. With a current tag other than \<open>latest\<close> and a non-empty tag list of which the
  filters keep nothing, \<open>findLatestTag\<close> returns \<open>latest\<close> when the list holds it and the
  first tag of the list otherwise; and, for any current tag, it fails exactly when the
  tag list is empty (with the no-tags error).
\<close>

theorem findLatestTag_fallback:
  "(currentTag \<noteq> ''latest'' \<and> tags \<noteq> []
      \<and> filterUnwantedVersions cfg (filterSemanticVersionTags tags) = []
     \<longrightarrow> findLatestTag w cfg tags currentTag
           = Inr (if ''latest'' \<in> set tags then ''latest'' else hd tags))
   \<and> ((\<exists>e. findLatestTag w cfg tags currentTag = Inl e) \<longleftrightarrow> tags = [])
   \<and> (tags = [] \<longrightarrow> findLatestTag w cfg tags currentTag = Inl NoTagsAvailable)"
  by (cases tags) (simp_all add: findLatestTag_def Let_def)

theorem findLatestTag_fallback_witness:
  "findLatestTag 64 (versionFilters (NewClient 100 10)) [''stable'', ''edge''] ''stable''
     = Inr ''stable''
   \<and> findLatestTag 64 (versionFilters (NewClient 100 10)) [''edge'', ''1.0.0-rc1'', ''latest'']
       ''edge'' = Inr ''latest''
   \<and> findLatestTag 64 (versionFilters (NewClient 100 10)) [] ''edge'' = Inl NoTagsAvailable"
proof -
  let ?cfg = "versionFilters (NewClient 100 10)"
  have f1: "filterUnwantedVersions ?cfg (filterSemanticVersionTags [''stable'', ''edge'']) = []"
    by code_simp
  have f2: "filterUnwantedVersions ?cfg
      (filterSemanticVersionTags [''edge'', ''1.0.0-rc1'', ''latest'']) = []"
    by code_simp
  show ?thesis
    using findLatestTag_fallback [of "''stable''" "[''stable'', ''edge'']" ?cfg 64]
      findLatestTag_fallback [of "''edge''" "[''edge'', ''1.0.0-rc1'', ''latest'']" ?cfg 64]
      findLatestTag_fallback [of "''edge''" "[]" ?cfg 64] f1 f2
    by simp
qed

section \<open>The update check\<close>

text \<open>
  C6. With the tags \<open>1.21.0\<close>, \<open>1.21.1\<close>, \<open>1.22.0-rc1\<close>, the current tag \<open>1.21.0\<close>, and a
  configuration that excludes pre-releases and keeps only stable versions (no custom
  patterns, any setting of the Windows filter), the latest tag is \<open>1.21.1\<close> and the check
  reports an update. Go's \<open>int\<close> has 32 or 64 bits.
\<close>

theorem CheckImageUpdate_scenario_A:
  assumes "w = 32 \<or> w = 64"
    and "versionFilters c = \<lparr>ExcludePreRelease = True, ExcludeWindows = ew,
                              ExcludePatterns = [], OnlyStable = True\<rparr>"
    and "Wait env = Granted"
    and "getImageTags env registry repository = Inr [''1.21.0'', ''1.21.1'', ''1.22.0-rc1'']"
  shows "findLatestTag w (versionFilters c) [''1.21.0'', ''1.21.1'', ''1.22.0-rc1''] ''1.21.0''
           = Inr ''1.21.1''
       \<and> CheckImageUpdate w c env registry repository ''1.21.0''
           = Some (Inr \<lparr>CurrentTag = ''1.21.0'', LatestTag = ''1.21.1'',
                        AvailableTags = [''1.21.0'', ''1.21.1'', ''1.22.0-rc1''],
                        LastUpdated = 0, HasUpdate = True,
                        info_Registry = registry, info_Repository = repository\<rparr>)"
proof -
  let ?tags = "[''1.21.0'', ''1.21.1'', ''1.22.0-rc1'']"
  let ?cfg = "\<lambda>b. \<lparr>ExcludePreRelease = True, ExcludeWindows = b,
                     ExcludePatterns = [], OnlyStable = True\<rparr>"
  have l32: "findLatestTag 32 (?cfg True) ?tags ''1.21.0'' = Inr ''1.21.1''" by code_simp
  have l32': "findLatestTag 32 (?cfg False) ?tags ''1.21.0'' = Inr ''1.21.1''" by code_simp
  have l64: "findLatestTag 64 (?cfg True) ?tags ''1.21.0'' = Inr ''1.21.1''" by code_simp
  have l64': "findLatestTag 64 (?cfg False) ?tags ''1.21.0'' = Inr ''1.21.1''" by code_simp
  have c32: "compareVersions 32 ''1.21.0'' ''1.21.1'' = VersionOlder" by code_simp
  have c64: "compareVersions 64 ''1.21.0'' ''1.21.1'' = VersionOlder" by code_simp
  have latest: "findLatestTag w (versionFilters c) ?tags ''1.21.0'' = Inr ''1.21.1''"
    using assms(1,2) l32 l32' l64 l64' by (cases ew) auto
  have older: "compareVersions w ''1.21.0'' ''1.21.1'' = VersionOlder"
    using assms(1) c32 c64 by auto
  show ?thesis
    using latest older assms(3,4) by (simp add: CheckImageUpdate_def)
qed

theorem CheckImageUpdate_scenario_A_witness:
  "CheckImageUpdate 64
     (NewClientWithFilters 100 10
        \<lparr>ExcludePreRelease = True, ExcludeWindows = False, ExcludePatterns = [], OnlyStable = True\<rparr>)
     \<lparr>Wait = Granted, getImageTags = (\<lambda>r p. Inr [''1.21.0'', ''1.21.1'', ''1.22.0-rc1''])\<rparr>
     ''docker.io'' ''library/nginx'' ''1.21.0''
   = Some (Inr \<lparr>CurrentTag = ''1.21.0'', LatestTag = ''1.21.1'',
                AvailableTags = [''1.21.0'', ''1.21.1'', ''1.22.0-rc1''],
                LastUpdated = 0, HasUpdate = True,
                info_Registry = ''docker.io'', info_Repository = ''library/nginx''\<rparr>)"
  using CheckImageUpdate_scenario_A [of 64
      "NewClientWithFilters 100 10
        \<lparr>ExcludePreRelease = True, ExcludeWindows = False, ExcludePatterns = [], OnlyStable = True\<rparr>"
      False
      "\<lparr>Wait = Granted, getImageTags = (\<lambda>r p. Inr [''1.21.0'', ''1.21.1'', ''1.22.0-rc1''])\<rparr>"
      "''docker.io''" "''library/nginx''"]
  by (simp add: NewClientWithFilters_def)

text \<open>
  C8. When the limiter grants a token and the registry answers with an empty tag list,
  the check returns a verdict (no error) with no update and no available tags. In every
  verdict that the check returns, \<open>HasUpdate\<close> holds exactly when \<open>compareVersions\<close> of
  the current and the latest tag of the verdict is \<open>VersionOlder\<close>.
\<close>

theorem CheckImageUpdate_empty_tags:
  "(Wait env = Granted \<and> getImageTags env registry repository = Inr []
      \<longrightarrow> CheckImageUpdate w c env registry repository currentTag
            = Some (Inr \<lparr>CurrentTag = currentTag, LatestTag = [], AvailableTags = [],
                         LastUpdated = 0, HasUpdate = False,
                         info_Registry = registry, info_Repository = repository\<rparr>))
   \<and> (CheckImageUpdate w c env registry repository currentTag = Some (Inr info)
      \<longrightarrow> HasUpdate info
            = (compareVersions w (CurrentTag info) (LatestTag info) = VersionOlder))"
  using compareVersions_empty_right [of w currentTag]
  by (auto simp: CheckImageUpdate_def Let_def
      split: wait_result.splits sum.splits if_splits)

theorem CheckImageUpdate_empty_tags_witness:
  "CheckImageUpdate 64 (NewClient 100 10) \<lparr>Wait = Granted, getImageTags = (\<lambda>r p. Inr [])\<rparr>
     ''docker.io'' ''library/nginx'' ''1.21.0''
   = Some (Inr \<lparr>CurrentTag = ''1.21.0'', LatestTag = [], AvailableTags = [],
                LastUpdated = 0, HasUpdate = False,
                info_Registry = ''docker.io'', info_Repository = ''library/nginx''\<rparr>)
   \<and> compareVersions 64 ''1.21.0'' [] \<noteq> VersionOlder"
  using CheckImageUpdate_empty_tags [of "\<lparr>Wait = Granted, getImageTags = (\<lambda>r p. Inr [])\<rparr>"
      "''docker.io''" "''library/nginx''" 64 "NewClient 100 10" "''1.21.0''"
      "\<lparr>CurrentTag = ''1.21.0'', LatestTag = [], AvailableTags = [],
          LastUpdated = 0, HasUpdate = False,
          info_Registry = ''docker.io'', info_Repository = ''library/nginx''\<rparr>"]
  by simp

section \<open>The rate limiter of the client\<close>

text \<open>
  C5. \<open>NewClient\<close> and \<open>NewClientWithFilters\<close> divide the requests per minute by sixty in
  integer arithmetic before building the limit, which counts events per second: for a
  positive number of requests per minute the limiter admits, per minute, that number
  rounded down to a multiple of sixty (so 60 for the default of 100, and nothing beyond
  the burst below 60); the burst capacity is the one given.
\<close>

theorem NewClient_rate:
  assumes "0 < requestsPerMinute"
  shows "events_per_minute (rateLimiter (NewClient requestsPerMinute b))
           = requestsPerMinute - requestsPerMinute mod 60
       \<and> events_per_minute (rateLimiter (NewClientWithFilters requestsPerMinute b filters))
           = requestsPerMinute - requestsPerMinute mod 60
       \<and> burst (rateLimiter (NewClient requestsPerMinute b)) = b
       \<and> burst (rateLimiter (NewClientWithFilters requestsPerMinute b filters)) = b"
proof -
  have "go_div requestsPerMinute 60 = requestsPerMinute div 60"
    using assms by (simp add: go_div_def)
  moreover have "requestsPerMinute div 60 * 60 = requestsPerMinute - requestsPerMinute mod 60"
    by (simp add: minus_mod_eq_div_mult)
  ultimately show ?thesis
    by (simp add: NewClient_def NewClientWithFilters_def NewLimiter_def events_per_minute_def)
qed

theorem NewClient_rate_witness:
  "events_per_minute (rateLimiter (NewClient 100 10)) = 60
   \<and> events_per_minute (rateLimiter (NewClient 30 10)) = 0
   \<and> burst (rateLimiter (NewClient 100 10)) = 10"
  using NewClient_rate [of 100 10] NewClient_rate [of 30 10] by simp

section \<open>Image references\<close>

text \<open>
  C2. The first group of the expression starts with \<open>[^/]+\<close>, which takes any leading
  segment whether or not it has a dot or a port, so \<open>myorg/nginx\<close> parses with the
  registry \<open>myorg\<close> and an empty namespace. Parsing fails exactly on the empty text and
  on a text the expression does not match.
\<close>

theorem ParseImageReference_myorg_nginx:
  "ParseImageReference ''myorg/nginx''
     = Inr \<lparr>Registry = ''myorg'', Namespace = [], Repository = ''nginx'',
            Tag = ''latest'', Digest = [], FullName = ''myorg/nginx''\<rparr>
   \<and> ((\<exists>e. ParseImageReference x = Inl e) \<longleftrightarrow> x = [] \<or> FindStringSubmatch image_re x = [])"
proof -
  have "ParseImageReference ''myorg/nginx''
      = Inr \<lparr>Registry = ''myorg'', Namespace = [], Repository = ''nginx'',
             Tag = ''latest'', Digest = [], FullName = ''myorg/nginx''\<rparr>"
    by code_simp
  moreover have "(\<exists>e. ParseImageReference x = Inl e) \<longleftrightarrow> x = [] \<or> FindStringSubmatch image_re x = []"
    by (simp add: ParseImageReference_def Let_def)
  ultimately show ?thesis by (rule conjI)
qed

text \<open>
  C10. A reference that \<open>ParseImageReference\<close> returns carries the raw input, unchanged, in
  \<open>FullName\<close>; parsing that field again gives the same reference.
\<close>

theorem ParseImageReference_FullName:
  assumes "ParseImageReference x = Inr r"
  shows "FullName r = x \<and> ParseImageReference (FullName r) = Inr r"
proof -
  have "FullName r = x"
    using assms by (auto simp: ParseImageReference_def Let_def split: if_splits)
  then show ?thesis using assms by simp
qed

theorem ParseImageReference_FullName_witness:
  "FullName \<lparr>Registry = ''docker.io'', Namespace = [], Repository = ''library/nginx'',
             Tag = ''latest'', Digest = [], FullName = ''nginx''\<rparr> = ''nginx''
   \<and> ParseImageReference ''nginx''
       = Inr \<lparr>Registry = ''docker.io'', Namespace = [], Repository = ''library/nginx'',
              Tag = ''latest'', Digest = [], FullName = ''nginx''\<rparr>"
proof -
  have p: "ParseImageReference ''nginx''
      = Inr \<lparr>Registry = ''docker.io'', Namespace = [], Repository = ''library/nginx'',
             Tag = ''latest'', Digest = [], FullName = ''nginx''\<rparr>"
    by code_simp
  show ?thesis using ParseImageReference_FullName [OF p] p by simp
qed

section \<open>At most one execution of a task at a time\<close>

lemma length_filter_update:
  assumes "i < length xs"
  shows "length (filter P (xs[i := y])) + (if P (xs ! i) then 1 else 0)
           = length (filter P xs) + (if P y then 1 else 0)"
proof -
  have whole: "xs = take i xs @ xs ! i # drop (Suc i) xs"
    using assms by (rule id_take_nth_drop)
  have upd: "xs[i := y] = take i xs @ y # drop (Suc i) xs"
    using assms by (rule upd_conv_take_nth_drop)
  have "length (filter P xs)
      = length (filter P (take i xs)) + (if P (xs ! i) then 1 else 0)
        + length (filter P (drop (Suc i) xs))"
    by (subst whole) simp
  moreover have "length (filter P (xs[i := y]))
      = length (filter P (take i xs)) + (if P y then 1 else 0)
        + length (filter P (drop (Suc i) xs))"
    by (subst upd) simp
  ultimately show ?thesis by simp
qed

lemma active_count_set_pc:
  assumes "i < length (threads s)"
  shows "active_count (set_pc s i p) + (if active (snd (threads s ! i)) then 1 else 0)
           = active_count s + (if active p then 1 else 0)"
  using length_filter_update [OF assms, of "\<lambda>th. active (snd th)" "(fst (threads s ! i), p)"]
  by (simp add: active_count_def set_pc_def)

lemma task_set_pc: "task (set_pc s i p) = task s"
  by (simp add: set_pc_def)

lemma set_pc_task_update: "set_pc (s\<lparr>task := t\<rparr>) i p = (set_pc s i p)\<lparr>task := t\<rparr>"
  by (simp add: set_pc_def)

lemma active_count_task_update: "active_count (s\<lparr>task := t\<rparr>) = active_count s"
  by (simp add: active_count_def)

lemma flag_inv_step_thread:
  assumes "flag_inv s" and "i < length (threads s)"
  shows "flag_inv (step_thread s i)"
proof (cases "snd (threads s ! i)")
  case AtCheck
  then show ?thesis
    using assms active_count_set_pc [OF assms(2), of AtStart]
      active_count_set_pc [OF assms(2), of "Ended Skipped"]
      active_count_set_pc [OF assms(2), of "Ended AlreadyRunningError"]
    by (cases "fst (threads s ! i)")
       (simp_all add: flag_inv_def step_thread_def set_pc_task_update
          active_count_task_update task_set_pc)
next
  case AtStart
  then show ?thesis
    using assms active_count_set_pc [OF assms(2), of "InHandler (now s)"]
    by (simp add: flag_inv_def step_thread_def task_set_pc)
next
  case (InHandler t)
  then show ?thesis using assms by (simp add: step_thread_def)
next
  case (AtStats t r)
  then show ?thesis
    using assms active_count_set_pc [OF assms(2), of "AtDefer r"]
    by (simp add: flag_inv_def step_thread_def set_pc_task_update
          active_count_task_update task_set_pc)
next
  case (AtDefer r)
  then show ?thesis
    using assms active_count_set_pc [OF assms(2), of "Ended (Ran r)"]
    by (simp add: flag_inv_def step_thread_def set_pc_task_update
          active_count_task_update task_set_pc split: if_splits)
next
  case (Ended e)
  then show ?thesis using assms by (simp add: step_thread_def)
qed

lemma flag_inv_handler_ends:
  assumes "flag_inv s" and "i < length (threads s)"
  shows "flag_inv (handler_ends s i r)"
proof (cases "snd (threads s ! i)")
  case (InHandler t)
  then show ?thesis
    using assms active_count_set_pc [OF assms(2), of "AtDefer r"]
      active_count_set_pc [OF assms(2), of "AtStats t r"]
    by (auto simp: flag_inv_def handler_ends_def task_set_pc)
qed (use assms in \<open>simp_all add: handler_ends_def\<close>)

lemma flag_inv_step: "flag_inv s \<Longrightarrow> flag_inv (step s ev)"
proof (cases ev)
  case (Step i)
  assume "flag_inv s"
  then show ?thesis using Step by (simp add: flag_inv_step_thread)
next
  case (HandlerEnds i r)
  assume "flag_inv s"
  then show ?thesis using HandlerEnds by (simp add: flag_inv_handler_ends)
qed (simp_all add: flag_inv_def active_count_def)

lemma flag_inv_foldl: "flag_inv s \<Longrightarrow> flag_inv (foldl step s evs)"
  by (induction evs arbitrary: s) (simp_all add: flag_inv_step)

lemma flag_inv_exec: "flag_inv (exec t0 evs)"
  unfolding exec_def
  by (rule flag_inv_foldl) (simp add: flag_inv_def active_count_def new_task_def)

text \<open>
  C9. After any sequence of firings, calls of \<open>RunTask\<close> and steps of the goroutines, in
  any interleaving, at most one execution of the task is active, and the task's
  \<open>IsRunning\<close> flag is set exactly when one is. A firing that reaches the locked test while
  the flag is set ends as skipped: it changes nothing else, and no later execution is
  recorded for it.
\<close>

theorem at_most_one_active:
  "active_count (exec t0 evs) \<le> 1
   \<and> (IsRunning (task (exec t0 evs)) \<longleftrightarrow> active_count (exec t0 evs) = 1)
   \<and> (i < length (threads (exec t0 evs)) \<and> threads (exec t0 evs) ! i = (Scheduled, AtCheck)
        \<and> IsRunning (task (exec t0 evs))
       \<longrightarrow> step (exec t0 evs) (Step i)
             = (exec t0 evs)\<lparr>threads := (threads (exec t0 evs))[i := (Scheduled, Ended Skipped)]\<rparr>
           \<and> active_count (step (exec t0 evs) (Step i)) = active_count (exec t0 evs))"
proof -
  have inv: "flag_inv (exec t0 evs)"
    by (rule flag_inv_exec)
  then have one: "active_count (exec t0 evs) \<le> 1"
    and flag: "IsRunning (task (exec t0 evs)) \<longleftrightarrow> active_count (exec t0 evs) = 1"
    by (simp_all add: flag_inv_def split: if_splits)
  have skip: "step s (Step i) = s\<lparr>threads := (threads s)[i := (Scheduled, Ended Skipped)]\<rparr>
      \<and> active_count (step s (Step i)) = active_count s"
    if "i < length (threads s)" "threads s ! i = (Scheduled, AtCheck)" "IsRunning (task s)" for s
    using that active_count_set_pc [OF that(1), of "Ended Skipped"]
    by (simp add: step_thread_def set_pc_def)
  show ?thesis using one flag skip [of "exec t0 evs"] by blast
qed

theorem at_most_one_active_witness:
  "active_count (exec 0 [Fire, Fire, RunTaskCall, Step 0, Step 0, Step 1, Step 2]) = 1
   \<and> IsRunning (task (exec 0 [Fire, Fire, RunTaskCall, Step 0, Step 0, Step 1, Step 2]))
   \<and> threads (step (exec 0 [Fire, Fire, Step 0]) (Step 1))
       = [(Scheduled, AtStart), (Scheduled, Ended Skipped)]"
proof -
  have a: "IsRunning (task (exec 0 [Fire, Fire, RunTaskCall, Step 0, Step 0, Step 1, Step 2]))"
    by (simp add: exec_def step_thread_def set_pc_def new_task_def)
  have b: "(1::nat) < length (threads (exec 0 [Fire, Fire, Step 0]))
      \<and> threads (exec 0 [Fire, Fire, Step 0]) ! 1 = (Scheduled, AtCheck)
      \<and> IsRunning (task (exec 0 [Fire, Fire, Step 0]))"
    by (simp add: exec_def step_thread_def set_pc_def new_task_def)
  have c: "threads (exec 0 [Fire, Fire, Step 0]) = [(Scheduled, AtStart), (Scheduled, AtCheck)]"
    by (simp add: exec_def step_thread_def set_pc_def new_task_def)
  show ?thesis
    using at_most_one_active [of 0 "[Fire, Fire, RunTaskCall, Step 0, Step 0, Step 1, Step 2]" 0]
      at_most_one_active [of 0 "[Fire, Fire, Step 0]" 1] a b c
    by simp
qed

section \<open>Checking a batch of images\<close>

lemma collect_step_single:
  "collect_step (infos, errs) r
     = (infos @ List.map_filter (\<lambda>r. if Error r = None then UpdateInfo r else None) [r],
        errs @ List.map_filter Error [r])"
  by (cases "Error r"; cases "UpdateInfo r")
     (simp_all add: collect_step_def)

lemma map_filter_Cons_append:
  "List.map_filter f (x # xs) = List.map_filter f [x] @ List.map_filter f xs"
  by (cases "f x") simp_all

lemma map_filter_append:
  "List.map_filter f (xs @ ys) = List.map_filter f xs @ List.map_filter f ys"
  by (simp add: List.map_filter_def)

lemma foldl_collect_step:
  "foldl collect_step (infos, errs) rs
     = (infos @ List.map_filter (\<lambda>r. if Error r = None then UpdateInfo r else None) rs,
        errs @ List.map_filter Error rs)"
proof (induction rs arbitrary: infos errs)
  case Nil
  show ?case by simp
next
  case (Cons r rs)
  have "foldl collect_step (infos, errs) (r # rs)
      = foldl collect_step (collect_step (infos, errs) r) rs"
    by simp
  also have "\<dots> = ((infos @ List.map_filter (\<lambda>r. if Error r = None then UpdateInfo r else None) [r])
                    @ List.map_filter (\<lambda>r. if Error r = None then UpdateInfo r else None) rs,
                  (errs @ List.map_filter Error [r]) @ List.map_filter Error rs)"
    by (simp only: collect_step_single Cons.IH)
  finally show ?case
    by (simp only: map_filter_Cons_append [of _ r rs] append_assoc)
qed

lemma foldl_collect_step_snoc:
  "foldl collect_step ([], []) (got @ [r])
     = collect_step (foldl collect_step ([], []) got) r"
  by simp

lemma mset_map_filter_cong:
  assumes "mset xs = mset ys"
  shows "mset (List.map_filter f xs) = mset (List.map_filter f ys)"
proof -
  have "mset (List.map_filter f zs) = image_mset (the \<circ> f) (filter_mset (\<lambda>x. f x \<noteq> None) (mset zs))"
    for zs
    by (simp add: List.map_filter_def)
  then show ?thesis using assms by simp
qed

lemma length_map_filter_le: "length (List.map_filter f xs) \<le> length xs"
  by (simp add: List.map_filter_def)

lemma map_filter_full:
  assumes "length (List.map_filter f xs) = length xs"
  shows "list_all (\<lambda>x. f x \<noteq> None) xs"
  using assms
proof (induction xs)
  case Nil
  show ?case by simp
next
  case (Cons x xs)
  show ?case
  proof (cases "f x")
    case None
    with Cons.prems have "length (List.map_filter f xs) = Suc (length xs)" by simp
    moreover have "length (List.map_filter f xs) \<le> length xs" by (rule length_map_filter_le)
    ultimately show ?thesis by simp
  next
    case (Some y)
    with Cons show ?thesis by simp
  qed
qed

lemma map_filter_all_Some:
  assumes "list_all (\<lambda>x. f x \<noteq> None) xs"
  shows "List.map_filter f xs = map (the \<circ> f) xs"
  using assms by (simp add: List.map_filter_def list_all_iff)

lemma mset_map_filter_update:
  assumes "k < length xs"
  shows "mset (List.map_filter f (xs[k := y])) + mset (List.map_filter f [xs ! k])
           = mset (List.map_filter f xs) + mset (List.map_filter f [y])"
proof -
  have whole: "xs = take k xs @ xs ! k # drop (Suc k) xs"
    using assms by (rule id_take_nth_drop)
  have upd: "xs[k := y] = take k xs @ y # drop (Suc k) xs"
    using assms by (rule upd_conv_take_nth_drop)
  have "mset (List.map_filter f xs)
      = mset (List.map_filter f (take k xs)) + mset (List.map_filter f [xs ! k])
        + mset (List.map_filter f (drop (Suc k) xs))"
    by (subst whole) (simp add: List.map_filter_def)
  moreover have "mset (List.map_filter f (xs[k := y]))
      = mset (List.map_filter f (take k xs)) + mset (List.map_filter f [y])
        + mset (List.map_filter f (drop (Suc k) xs))"
    by (subst upd) (simp add: List.map_filter_def)
  ultimately show ?thesis by simp
qed

lemma mset_sent_results_update:
  assumes "k < length gs" and "length gs = length outs"
  shows "mset (sent_results outs (gs[k := g]))
           + mset (List.map_filter (\<lambda>p. if has_sent (snd p) then fst p else None) [(outs ! k, gs ! k)])
         = mset (sent_results outs gs)
           + mset (List.map_filter (\<lambda>p. if has_sent (snd p) then fst p else None) [(outs ! k, g)])"
proof -
  have k: "k < length (zip outs gs)"
    using assms by simp
  have "zip outs (gs[k := g]) = (zip outs gs)[k := (outs ! k, g)]"
    using assms by (simp add: update_zip)
  moreover have "zip outs gs ! k = (outs ! k, gs ! k)"
    using assms by simp
  ultimately show ?thesis
    using mset_map_filter_update [OF k, of "\<lambda>p. if has_sent (snd p) then fst p else None" "(outs ! k, g)"]
    by (simp only: sent_results_def)
qed

lemma batch_inv_init: "batch_inv outs (batch_init (length outs))"
proof -
  have "list_all (\<lambda>p. \<not> has_sent (snd p)) (zip outs (replicate (length outs) Queued))"
    by (auto simp: list_all_iff has_sent_def dest: set_zip_rightD)
  then have "sent_results outs (replicate (length outs) Queued) = []"
    by (simp add: sent_results_def List.map_filter_def list_all_iff filter_empty_conv)
  then show ?thesis
    by (simp add: batch_inv_def batch_init_def)
qed

lemma batch_inv_goroutine_update:
  assumes "batch_inv outs s" and "k < length (goroutines s)"
    and "has_sent g = has_sent (goroutines s ! k)"
  shows "batch_inv outs (s\<lparr>goroutines := (goroutines s)[k := g]\<rparr>)"
proof -
  have len: "length (goroutines s) = length outs"
    using assms(1) by (simp add: batch_inv_def)
  have "mset (sent_results outs ((goroutines s)[k := g])) = mset (sent_results outs (goroutines s))"
    using mset_sent_results_update [OF assms(2) len, of g] assms(3)
    by (cases "has_sent (goroutines s ! k)"; cases "outs ! k") simp_all
  then show ?thesis
    using assms(1) by (simp add: batch_inv_def)
qed

lemma batch_inv_send:
  assumes "batch_inv outs s" and "k < length (goroutines s)"
    and "goroutines s ! k = InCheck" and "outs ! k = Some r"
  shows "batch_inv outs (s\<lparr>goroutines := (goroutines s)[k := Sent], results := results s @ [r]\<rparr>)"
proof -
  have len: "length (goroutines s) = length outs"
    using assms(1) by (simp add: batch_inv_def)
  have "mset (sent_results outs ((goroutines s)[k := Sent]))
      = mset (sent_results outs (goroutines s)) + {#r#}"
    using mset_sent_results_update [OF assms(2) len, of Sent] assms(3,4)
    by (simp add: has_sent_def)
  then show ?thesis
    using assms(1) by (auto simp: batch_inv_def)
qed

lemma batch_inv_receive:
  assumes "batch_inv outs s" and "results s = r # rest"
  shows "batch_inv outs
           (s\<lparr>results := rest, loop_i := loop_i s + 1,
              updateInfos := fst (collect_step (updateInfos s, errors s) r),
              errors := snd (collect_step (updateInfos s, errors s) r)\<rparr>)"
proof -
  from assms(1) obtain got where got: "loop_i s = length got"
      "(updateInfos s, errors s) = foldl collect_step ([], []) got"
      "mset got + mset (results s) = mset (sent_results outs (goroutines s))"
    and len: "length (goroutines s) = length outs"
    by (auto simp: batch_inv_def)
  have "loop_i s + 1 = length (got @ [r])"
    using got(1) by simp
  moreover have "(fst (collect_step (updateInfos s, errors s) r),
                  snd (collect_step (updateInfos s, errors s) r))
                 = foldl collect_step ([], []) (got @ [r])"
    using got(2) by simp
  moreover have "mset (got @ [r]) + mset rest = mset (sent_results outs (goroutines s))"
    using got(3) assms(2) by simp
  ultimately have "\<exists>got'. loop_i s + 1 = length got'
      \<and> (fst (collect_step (updateInfos s, errors s) r),
           snd (collect_step (updateInfos s, errors s) r))
          = foldl collect_step ([], []) got'
      \<and> mset got' + mset rest = mset (sent_results outs (goroutines s))"
    by blast
  then show ?thesis
    using len by (simp add: batch_inv_def)
qed

lemma batch_inv_step:
  assumes "batch_inv outs s"
  shows "batch_inv outs (batch_step mc outs s ev)"
proof (cases "enabled mc outs s ev")
  case False
  then show ?thesis using assms by (simp add: batch_step_def)
next
  case en: True
  show ?thesis
  proof (cases ev)
    case (Acquire k)
    then show ?thesis
      using en assms batch_inv_goroutine_update [OF assms, of k InCheck]
      by (simp add: batch_step_def has_sent_def)
  next
    case (CheckReturns k)
    with en obtain r where "outs ! k = Some r" by auto
    then show ?thesis
      using en CheckReturns batch_inv_send [OF assms, of k r]
      by (simp add: batch_step_def)
  next
    case (Release k)
    then show ?thesis
      using en assms batch_inv_goroutine_update [OF assms, of k Released]
      by (simp add: batch_step_def has_sent_def)
  next
    case Receive
    with en obtain r rest where "results s = r # rest"
      by (cases "results s") auto
    then show ?thesis
      using en Receive batch_inv_receive [OF assms, of r rest]
      by (simp add: batch_step_def Let_def)
  qed
qed

lemma batch_inv_foldl:
  "batch_inv outs s \<Longrightarrow> batch_inv outs (foldl (batch_step mc outs) s evs)"
  by (induction evs arbitrary: s) (simp_all add: batch_inv_step)

lemma batch_inv_exec: "batch_inv outs (batch_exec mc outs sched)"
  unfolding batch_exec_def by (rule batch_inv_foldl) (rule batch_inv_init)

lemma sum_list_map_update:
  fixes f :: "'a \<Rightarrow> nat"
  assumes "k < length xs"
  shows "sum_list (map f (xs[k := y])) + f (xs ! k) = sum_list (map f xs) + f y"
proof -
  have whole: "xs = take k xs @ xs ! k # drop (Suc k) xs"
    using assms by (rule id_take_nth_drop)
  have upd: "xs[k := y] = take k xs @ y # drop (Suc k) xs"
    using assms by (rule upd_conv_take_nth_drop)
  have "sum_list (map f xs)
      = sum_list (map f (take k xs)) + f (xs ! k) + sum_list (map f (drop (Suc k) xs))"
    by (subst whole) simp
  moreover have "sum_list (map f (xs[k := y]))
      = sum_list (map f (take k xs)) + f y + sum_list (map f (drop (Suc k) xs))"
    by (subst upd) simp
  ultimately show ?thesis by simp
qed

lemma remaining_goroutine_update:
  assumes "k < length (goroutines s)" and "weight (goroutines s ! k) = Suc (weight g)"
    and "goroutines s' = (goroutines s)[k := g]" and "loop_i s' = loop_i s"
  shows "Suc (remaining s') = remaining s"
  using sum_list_map_update [OF assms(1), of weight g] assms(2,3,4)
  by (simp add: remaining_def)

lemma remaining_step:
  assumes "enabled mc outs s ev"
  shows "Suc (remaining (batch_step mc outs s ev)) = remaining s"
proof (cases ev)
  case (Acquire k)
  then show ?thesis
    using assms by (auto simp: batch_step_def intro!: remaining_goroutine_update [of k])
next
  case (CheckReturns k)
  with assms obtain r where "outs ! k = Some r" by auto
  then show ?thesis
    using assms CheckReturns
    by (auto simp: batch_step_def intro!: remaining_goroutine_update [of k])
next
  case (Release k)
  then show ?thesis
    using assms by (auto simp: batch_step_def intro!: remaining_goroutine_update [of k])
next
  case Receive
  with assms obtain r rest where "results s = r # rest"
    by (cases "results s") auto
  then show ?thesis
    using assms Receive by (simp add: batch_step_def remaining_def Let_def)
qed

lemma run_from_remaining:
  "run_from mc outs s evs
     \<Longrightarrow> remaining (foldl (batch_step mc outs) s evs) + length evs = remaining s"
proof (induction evs arbitrary: s)
  case Nil
  show ?case by simp
next
  case (Cons ev evs)
  then have en: "enabled mc outs s ev" and rest: "run_from mc outs (batch_step mc outs s ev) evs"
    by (simp_all split: if_splits)
  from Cons.IH [OF rest] remaining_step [OF en] show ?case by simp
qed

lemma remaining_init: "remaining (batch_init n) = 4 * n"
  by (simp add: remaining_def batch_init_def sum_list_replicate)

lemma is_run_length: "is_run mc outs sched \<Longrightarrow> length sched \<le> 4 * length outs"
  using run_from_remaining [of mc outs "batch_init (length outs)" sched]
  by (simp add: is_run_def remaining_init)

lemma in_all_events:
  "Receive \<in> set (all_events n)"
  "k < n \<Longrightarrow> Acquire k \<in> set (all_events n)"
  "k < n \<Longrightarrow> CheckReturns k \<in> set (all_events n)"
  "k < n \<Longrightarrow> Release k \<in> set (all_events n)"
  by (auto simp: all_events_def)

lemma not_quiescentI:
  "ev \<in> set (all_events (length (goroutines s))) \<Longrightarrow> enabled mc outs s ev
     \<Longrightarrow> \<not> quiescent mc outs s"
  by (auto simp: quiescent_def list_all_iff)

lemma batch_inv_lengths:
  assumes "batch_inv outs s"
  shows "loop_i s + length (results s) = length (sent_results outs (goroutines s))"
    and "length (sent_results outs (goroutines s)) \<le> length outs"
    and "length (goroutines s) = length outs"
proof -
  from assms obtain got where "loop_i s = length got"
      "mset got + mset (results s) = mset (sent_results outs (goroutines s))"
    and len: "length (goroutines s) = length outs"
    by (auto simp: batch_inv_def)
  then have "size (mset got + mset (results s)) = size (mset (sent_results outs (goroutines s)))"
    by simp
  then show "loop_i s + length (results s) = length (sent_results outs (goroutines s))"
    using \<open>loop_i s = length got\<close> by simp
  have "length (sent_results outs (goroutines s)) \<le> length (zip outs (goroutines s))"
    unfolding sent_results_def by (rule length_map_filter_le)
  then show "length (sent_results outs (goroutines s)) \<le> length outs"
    using len by simp
  show "length (goroutines s) = length outs" by (rule len)
qed

lemma all_released_sent:
  assumes "length gs = length outs" and "list_all (\<lambda>out. out \<noteq> None) outs"
    and "\<forall>k < length gs. gs ! k = Released"
  shows "length (sent_results outs gs) = length outs"
proof -
  have "list_all (\<lambda>p. (if has_sent (snd p) then fst p else None) \<noteq> None) (zip outs gs)"
    using assms
    by (auto simp: list_all_length has_sent_def)
  then have "sent_results outs gs
      = map (the \<circ> (\<lambda>p. if has_sent (snd p) then fst p else None)) (zip outs gs)"
    unfolding sent_results_def by (rule map_filter_all_Some)
  then show ?thesis using assms(1) by simp
qed

lemma batch_progress:
  assumes inv: "batch_inv outs s" and ret: "list_all (\<lambda>out. out \<noteq> None) outs"
    and mc: "0 < mc" and unfinished: "loop_i s \<noteq> length outs"
  shows "\<not> quiescent mc outs s"
proof -
  note lens = batch_inv_lengths [OF inv]
  let ?gs = "goroutines s"
  have bound: "loop_i s + length (results s) \<le> length outs"
    using lens(1,2) by simp
  show ?thesis
  proof (cases "results s = []")
    case False
    then have "loop_i s < length ?gs"
      using bound lens(3) by (cases "results s") simp_all
    then have "enabled mc outs s Receive"
      using False by simp
    then show ?thesis
      by (rule not_quiescentI [OF in_all_events(1)])
  next
    case empty: True
    show ?thesis
    proof (cases "\<exists>k < length ?gs. ?gs ! k = Sent")
      case True
      then obtain k where k: "k < length ?gs" "?gs ! k = Sent" by blast
      then have "enabled mc outs s (Release k)" by simp
      then show ?thesis
        by (rule not_quiescentI [OF in_all_events(4) [OF k(1)]])
    next
      case noSent: False
      show ?thesis
      proof (cases "\<exists>k < length ?gs. ?gs ! k = InCheck")
        case True
        then obtain k where k: "k < length ?gs" "?gs ! k = InCheck" by blast
        then have "outs ! k \<noteq> None"
          using ret lens(3) by (simp add: list_all_length)
        then have "enabled mc outs s (CheckReturns k)"
          using k lens(3) by simp
        then show ?thesis
          by (rule not_quiescentI [OF in_all_events(3) [OF k(1)]])
      next
        case noCheck: False
        have "filter holds_slot ?gs = []"
          using noSent noCheck
          by (auto simp: filter_empty_conv holds_slot_def in_set_conv_nth)
        then have free: "slots s = 0"
          by (simp add: slots_def)
        show ?thesis
        proof (cases "\<exists>k < length ?gs. ?gs ! k = Queued")
          case True
          then obtain k where k: "k < length ?gs" "?gs ! k = Queued" by blast
          then have "enabled mc outs s (Acquire k)"
            using free mc by simp
          then show ?thesis
            by (rule not_quiescentI [OF in_all_events(2) [OF k(1)]])
        next
          case noQueued: False
          have "\<forall>k < length ?gs. ?gs ! k = Released"
          proof (intro allI impI)
            fix k assume "k < length ?gs"
            then show "?gs ! k = Released"
              using noSent noCheck noQueued by (cases "?gs ! k") auto
          qed
          then have "length (sent_results outs ?gs) = length outs"
            using lens(3) ret by (intro all_released_sent)
          then have "loop_i s = length outs"
            using lens(1) empty by simp
          then show ?thesis using unfinished by simp
        qed
      qed
    qed
  qed
qed

lemma batch_finished:
  assumes inv: "batch_inv outs s" and fin: "loop_i s = length outs"
  shows "list_all (\<lambda>out. out \<noteq> None) outs
       \<and> (\<exists>got. mset got = mset (map the outs)
              \<and> (updateInfos s, errors s) = foldl collect_step ([], []) got)"
proof -
  let ?f = "\<lambda>p. if has_sent (snd p) then fst p else None"
  let ?z = "zip outs (goroutines s)"
  note lens = batch_inv_lengths [OF inv]
  from inv obtain got where got: "loop_i s = length got"
      "(updateInfos s, errors s) = foldl collect_step ([], []) got"
      "mset got + mset (results s) = mset (sent_results outs (goroutines s))"
    by (auto simp: batch_inv_def)
  have "length outs + length (results s) \<le> length outs"
    using lens(1,2) fin by simp
  then have empty: "results s = []"
    by simp
  then have full: "length (sent_results outs (goroutines s)) = length outs"
    using lens(1) fin by simp
  have "length (List.map_filter ?f ?z) = length ?z"
    using full lens(3) by (simp add: sent_results_def)
  then have all: "list_all (\<lambda>p. ?f p \<noteq> None) ?z"
    by (rule map_filter_full)
  then have fst_ok: "\<forall>p \<in> set ?z. fst p \<noteq> None \<and> ?f p = fst p"
    by (auto simp: list_all_iff split: if_splits)
  have "sent_results outs (goroutines s) = map (the \<circ> ?f) ?z"
    unfolding sent_results_def using all by (rule map_filter_all_Some)
  also have "\<dots> = map (the \<circ> fst) ?z"
    using fst_ok by (intro map_cong) simp_all
  also have "\<dots> = map the (map fst ?z)"
    by simp
  also have "map fst ?z = outs"
    using lens(3) by simp
  finally have sent: "sent_results outs (goroutines s) = map the outs" .
  have "set outs = fst ` set ?z"
    using lens(3) by (metis map_fst_zip set_map)
  then have "list_all (\<lambda>out. out \<noteq> None) outs"
    using fst_ok by (auto simp: list_all_iff)
  moreover have "mset got = mset (map the outs)"
    using got(3) empty sent by simp
  ultimately show ?thesis using got(2) by blast
qed

lemma batch_can_finish:
  assumes "batch_inv outs s" and "list_all (\<lambda>out. out \<noteq> None) outs" and "0 < mc"
  shows "\<exists>evs. run_from mc outs s evs
            \<and> loop_i (foldl (batch_step mc outs) s evs) = length outs"
  using assms(1)
proof (induction "remaining s" arbitrary: s rule: less_induct)
  case less
  show ?case
  proof (cases "loop_i s = length outs")
    case True
    have "run_from mc outs s [] \<and> loop_i (foldl (batch_step mc outs) s []) = length outs"
      using True by simp
    then show ?thesis by blast
  next
    case False
    have "\<not> quiescent mc outs s"
      using less.prems assms(2,3) False by (rule batch_progress)
    then obtain ev where en: "enabled mc outs s ev"
      by (auto simp: quiescent_def list_all_iff)
    let ?s' = "batch_step mc outs s ev"
    have "remaining ?s' < remaining s"
      using remaining_step [OF en] by simp
    moreover have "batch_inv outs ?s'"
      using less.prems by (rule batch_inv_step)
    ultimately obtain evs where "run_from mc outs ?s' evs"
        "loop_i (foldl (batch_step mc outs) ?s' evs) = length outs"
      using less.hyps by blast
    then have "run_from mc outs s (ev # evs)
        \<and> loop_i (foldl (batch_step mc outs) s (ev # evs)) = length outs"
      using en by simp
    then show ?thesis by blast
  qed
qed

lemma goroutine_None_iff: "goroutine w c j = None \<longleftrightarrow> check_job w c j = None"
  by (simp add: goroutine_def split: option.splits sum.splits)

lemma goroutine_Some:
  assumes "check_job w c j = Some x"
  shows "goroutine w c j
     = Some (case x of
               Inl err \<Rightarrow> \<lparr>UpdateInfo = None, Error = Some err, Image = fst j\<rparr>
             | Inr info \<Rightarrow> \<lparr>UpdateInfo = Some info, Error = None, Image = fst j\<rparr>)"
  using assms by (cases x) (simp_all add: goroutine_def)

lemma goroutine_returns:
  "list_all (\<lambda>out. out \<noteq> None) (map (goroutine w c) jobs) = list_all (check_returns w c) jobs"
  by (induction jobs) (simp_all add: goroutine_None_iff check_returns_def del: not_None_eq)

lemma goroutine_infos:
  assumes "list_all (check_returns w c) jobs"
  shows "List.map_filter (\<lambda>r. if Error r = None then UpdateInfo r else None)
           (map the (map (goroutine w c) jobs)) = verdicts w c jobs"
  using assms
proof (induction jobs)
  case Nil
  show ?case by (simp add: verdicts_def)
next
  case (Cons j js)
  then obtain x where x: "check_job w c j = Some x"
    by (auto simp: check_returns_def)
  have "List.map_filter (\<lambda>r. if Error r = None then UpdateInfo r else None)
           (map the (map (goroutine w c) js)) = verdicts w c js"
    using Cons by simp
  then show ?case
    using x goroutine_Some [OF x] by (cases x) (simp_all add: verdicts_def)
qed

lemma goroutine_errors:
  assumes "list_all (check_returns w c) jobs"
  shows "length (List.map_filter Error (map the (map (goroutine w c) jobs)))
           + length (verdicts w c jobs) = length jobs"
  using assms
proof (induction jobs)
  case Nil
  show ?case by (simp add: verdicts_def)
next
  case (Cons j js)
  then obtain x where x: "check_job w c j = Some x"
    by (auto simp: check_returns_def)
  have "length (List.map_filter Error (map the (map (goroutine w c) js)))
           + length (verdicts w c js) = length js"
    using Cons by simp
  then show ?case
    using x goroutine_Some [OF x] by (cases x) (simp_all add: verdicts_def)
qed

lemma verdicts_empty_iff:
  assumes "list_all (check_returns w c) jobs"
  shows "verdicts w c jobs = [] \<longleftrightarrow> list_all (check_fails w c) jobs"
  using assms
proof (induction jobs)
  case Nil
  show ?case by (simp add: verdicts_def)
next
  case (Cons j js)
  then obtain x where x: "check_job w c j = Some x"
    by (auto simp: check_returns_def)
  have fails: "check_fails w c j = isl x"
    using x by (cases x) (simp_all add: check_fails_def)
  have "verdicts w c js = [] \<longleftrightarrow> list_all (check_fails w c) js"
    using Cons by simp
  then show ?case
    using x fails by (cases x) (simp_all add: verdicts_def)
qed

lemma batch_result_finished:
  assumes inv: "batch_inv (map (goroutine w c) jobs) s" and fin: "loop_i s = length jobs"
    and ne: "jobs \<noteq> []"
  shows "list_all (check_returns w c) jobs
       \<and> ((\<exists>e. batch_result s = Inl e) \<longleftrightarrow> list_all (check_fails w c) jobs)
       \<and> (\<forall>infos. batch_result s = Inr infos \<longrightarrow> mset infos = mset (verdicts w c jobs))"
proof -
  let ?outs = "map (goroutine w c) jobs"
  from batch_finished [OF inv] fin
  obtain got where some: "list_all (\<lambda>out. out \<noteq> None) ?outs"
    and got: "mset got = mset (map the ?outs)"
      "(updateInfos s, errors s) = foldl collect_step ([], []) got"
    by auto
  have ret: "list_all (check_returns w c) jobs"
    using some by (simp only: goroutine_returns)
  have acc: "updateInfos s = List.map_filter (\<lambda>r. if Error r = None then UpdateInfo r else None) got"
      "errors s = List.map_filter Error got"
    using got(2) by (simp_all add: foldl_collect_step)
  have infos: "mset (updateInfos s) = mset (verdicts w c jobs)"
    using mset_map_filter_cong [OF got(1), of "\<lambda>r. if Error r = None then UpdateInfo r else None"]
    by (simp only: acc(1) goroutine_infos [OF ret])
  have "mset (errors s) = mset (List.map_filter Error (map the ?outs))"
    unfolding acc(2) using got(1) by (rule mset_map_filter_cong)
  then have "length (errors s) = length (List.map_filter Error (map the ?outs))"
    by (rule mset_eq_length)
  then have errs: "length (errors s) + length (verdicts w c jobs) = length jobs"
    using goroutine_errors [OF ret] by simp
  have len: "length (updateInfos s) = length (verdicts w c jobs)"
    using infos by (rule mset_eq_length)
  have none: "(length (verdicts w c jobs) = 0) = list_all (check_fails w c) jobs"
    using verdicts_empty_iff [OF ret] by simp
  show ?thesis
  proof (cases "list_all (check_fails w c) jobs")
    case True
    with none len have "length (updateInfos s) = 0" by simp
    moreover from this errs len ne have "0 < length (errors s)" by simp
    ultimately show ?thesis
      using ret True by (simp add: batch_result_def)
  next
    case False
    with none len have "length (updateInfos s) \<noteq> 0" by simp
    then show ?thesis
      using ret False infos by (simp add: batch_result_def)
  qed
qed

lemma ten_schedule_run:
  "is_run 3
     (map (\<lambda>k. Some (if k = 3 then \<lparr>UpdateInfo = None, Error = Some e, Image = i k\<rparr>
                      else \<lparr>UpdateInfo = Some (u k), Error = None, Image = i k\<rparr>)) [0 ..< 10])
     ten_schedule
   \<and> loop_i (batch_exec 3
       (map (\<lambda>k. Some (if k = 3 then \<lparr>UpdateInfo = None, Error = Some e, Image = i k\<rparr>
                      else \<lparr>UpdateInfo = Some (u k), Error = None, Image = i k\<rparr>)) [0 ..< 10])
       ten_schedule) = 10
   \<and> batch_result (batch_exec 3
       (map (\<lambda>k. Some (if k = 3 then \<lparr>UpdateInfo = None, Error = Some e, Image = i k\<rparr>
                      else \<lparr>UpdateInfo = Some (u k), Error = None, Image = i k\<rparr>)) [0 ..< 10])
       ten_schedule) = Inr [u 1, u 2, u 0, u 9, u 5, u 4, u 8, u 7, u 6]"
  by code_simp

lemma ten_job_result:
  "goroutine 64 (NewClient 100 10) (ten_job k)
     = Some (if k = 3
             then \<lparr>UpdateInfo = None, Error = Some (GetImageTagsError ''connection refused''),
                   Image = fst (ten_job k)\<rparr>
             else \<lparr>UpdateInfo = Some \<lparr>CurrentTag = ''1.0.0'', LatestTag = ''1.1.0'',
                                       AvailableTags = [''1.0.0'', ''1.1.0''],
                                       LastUpdated = 0, HasUpdate = True,
                                       info_Registry = ''docker.io'',
                                       info_Repository = ''library/app'' @ [char_of (48 + k)]\<rparr>,
                   Error = None, Image = fst (ten_job k)\<rparr>)"
proof -
  have l: "findLatestTag 64 (versionFilters (NewClient 100 10)) [''1.0.0'', ''1.1.0''] ''1.0.0''
      = Inr ''1.1.0''"
    by code_simp
  have cmp: "compareVersions 64 ''1.0.0'' ''1.1.0'' = VersionOlder"
    by code_simp
  show ?thesis
    by (cases "k = 3")
       (simp_all add: goroutine_def check_job_def ten_job_def CheckImageUpdate_def l cmp)
qed

text \<open>
  C4, with the condition it needs. \<open>CheckMultipleImages\<close> returns only once every check
  has returned; what it then returns is an error exactly when the batch is not empty and
  every check failed, and otherwise exactly the verdicts of the checks that succeeded,
  the failures being dropped. With at least one slot in the semaphore and every check
  returning, it does return, however its goroutines are scheduled: no schedule leaves it
  blocked (while it has not returned, some step can happen), a run has at most four
  steps per image, and there is a run after which it has returned.
\<close>

theorem CheckMultipleImages_when_checks_return:
  "(CheckMultipleImages w c jobs maxConcurrency sched = Returned r \<longrightarrow>
        list_all (check_returns w c) jobs
      \<and> ((\<exists>e. r = Inl e) \<longleftrightarrow> jobs \<noteq> [] \<and> list_all (check_fails w c) jobs)
      \<and> (\<forall>infos. r = Inr infos \<longrightarrow> mset infos = mset (verdicts w c jobs)))
   \<and> (0 < maxConcurrency \<and> list_all (check_returns w c) jobs \<longrightarrow>
        CheckMultipleImages w c jobs maxConcurrency sched \<noteq> Deadlocked
      \<and> (is_run maxConcurrency (map (goroutine w c) jobs) sched
           \<longrightarrow> length sched \<le> 4 * length jobs)
      \<and> (\<exists>sched' r'. is_run maxConcurrency (map (goroutine w c) jobs) sched'
             \<and> CheckMultipleImages w c jobs maxConcurrency sched' = Returned r'))"
proof (cases "jobs = []")
  case True
  have "is_run maxConcurrency (map (goroutine w c) jobs) []
      \<and> CheckMultipleImages w c jobs maxConcurrency [] = Returned (Inr [])"
    using True by (simp add: is_run_def CheckMultipleImages_def)
  then have "\<exists>sched' r'. is_run maxConcurrency (map (goroutine w c) jobs) sched'
      \<and> CheckMultipleImages w c jobs maxConcurrency sched' = Returned r'"
    by blast
  moreover have "is_run maxConcurrency (map (goroutine w c) jobs) sched \<longrightarrow> length sched \<le> 0"
    using True is_run_length [of maxConcurrency "map (goroutine w c) jobs" sched] by simp
  ultimately show ?thesis
    using True by (auto simp: CheckMultipleImages_def verdicts_def)
next
  case ne: False
  let ?outs = "map (goroutine w c) jobs"
  let ?s = "batch_exec maxConcurrency ?outs sched"
  have inv: "batch_inv ?outs ?s"
    by (rule batch_inv_exec)
  have safe: "CheckMultipleImages w c jobs maxConcurrency sched = Returned r \<longrightarrow>
        list_all (check_returns w c) jobs
      \<and> ((\<exists>e. r = Inl e) \<longleftrightarrow> jobs \<noteq> [] \<and> list_all (check_fails w c) jobs)
      \<and> (\<forall>infos. r = Inr infos \<longrightarrow> mset infos = mset (verdicts w c jobs))"
  proof
    assume "CheckMultipleImages w c jobs maxConcurrency sched = Returned r"
    then have fin: "loop_i ?s = length jobs" and r: "r = batch_result ?s"
      using ne by (auto simp: CheckMultipleImages_def Let_def split: if_splits)
    from batch_result_finished [OF inv fin ne] show
      "list_all (check_returns w c) jobs
       \<and> ((\<exists>e. r = Inl e) \<longleftrightarrow> jobs \<noteq> [] \<and> list_all (check_fails w c) jobs)
       \<and> (\<forall>infos. r = Inr infos \<longrightarrow> mset infos = mset (verdicts w c jobs))"
      using ne r by simp
  qed
  have live: "CheckMultipleImages w c jobs maxConcurrency sched \<noteq> Deadlocked
      \<and> (is_run maxConcurrency ?outs sched \<longrightarrow> length sched \<le> 4 * length jobs)
      \<and> (\<exists>sched' r'. is_run maxConcurrency ?outs sched'
             \<and> CheckMultipleImages w c jobs maxConcurrency sched' = Returned r')"
    if pos: "0 < maxConcurrency" and ret: "list_all (check_returns w c) jobs"
  proof -
    have some: "list_all (\<lambda>out. out \<noteq> None) ?outs"
      using ret by (simp only: goroutine_returns)
    have "loop_i ?s \<noteq> length ?outs \<Longrightarrow> \<not> quiescent maxConcurrency ?outs ?s"
      using inv some pos by (rule batch_progress)
    then have a: "CheckMultipleImages w c jobs maxConcurrency sched \<noteq> Deadlocked"
      using pos by (auto simp: CheckMultipleImages_def Let_def)
    have b: "is_run maxConcurrency ?outs sched \<longrightarrow> length sched \<le> 4 * length jobs"
      using is_run_length [of maxConcurrency ?outs sched] by simp
    from batch_can_finish [OF batch_inv_init some pos]
    obtain evs where "run_from maxConcurrency ?outs (batch_init (length ?outs)) evs"
        "loop_i (foldl (batch_step maxConcurrency ?outs) (batch_init (length ?outs)) evs)
           = length ?outs"
      by blast
    then have "is_run maxConcurrency ?outs evs
        \<and> CheckMultipleImages w c jobs maxConcurrency evs
            = Returned (batch_result (batch_exec maxConcurrency ?outs evs))"
      using pos ne by (simp add: is_run_def CheckMultipleImages_def batch_exec_def Let_def)
    then have "\<exists>sched' r'. is_run maxConcurrency ?outs sched'
        \<and> CheckMultipleImages w c jobs maxConcurrency sched' = Returned r'"
      by blast
    with a b show ?thesis by blast
  qed
  show ?thesis using safe live by blast
qed

theorem CheckMultipleImages_when_checks_return_witness:
  "is_run 3 (map (goroutine 64 (NewClient 100 10)) ten_jobs) ten_schedule
   \<and> length ten_schedule \<le> 4 * length ten_jobs
   \<and> (\<exists>infos. CheckMultipleImages 64 (NewClient 100 10) ten_jobs 3 ten_schedule
                  = Returned (Inr infos)
              \<and> length infos = 9
              \<and> mset infos = mset (verdicts 64 (NewClient 100 10) ten_jobs))"
proof -
  let ?c = "NewClient 100 10"
  let ?outs = "map (goroutine 64 ?c) ten_jobs"
  let ?u = "\<lambda>k::nat. \<lparr>CurrentTag = ''1.0.0'', LatestTag = ''1.1.0'',
                   AvailableTags = [''1.0.0'', ''1.1.0''], LastUpdated = 0, HasUpdate = True,
                   info_Registry = ''docker.io'',
                   info_Repository = ''library/app'' @ [char_of (48 + k)]\<rparr>"
  let ?infos = "[?u 1, ?u 2, ?u 0, ?u 9, ?u 5, ?u 4, ?u 8, ?u 7, ?u (6::nat)]"
  have outs: "?outs
      = map (\<lambda>k. Some (if k = 3
                        then \<lparr>UpdateInfo = None,
                              Error = Some (GetImageTagsError ''connection refused''),
                              Image = fst (ten_job k)\<rparr>
                        else \<lparr>UpdateInfo = Some (?u k), Error = None,
                              Image = fst (ten_job k)\<rparr>)) [0 ..< 10]"
    unfolding ten_jobs_def map_map comp_def ten_job_result by (rule refl)
  have all: "is_run 3 ?outs ten_schedule
      \<and> loop_i (batch_exec 3 ?outs ten_schedule) = 10
      \<and> batch_result (batch_exec 3 ?outs ten_schedule) = Inr ?infos"
    unfolding outs by (rule ten_schedule_run)
  have len: "length ten_jobs = 10"
    by (simp add: ten_jobs_def)
  have cmi: "CheckMultipleImages 64 ?c ten_jobs 3 ten_schedule = Returned (Inr ?infos)"
    using all len by (simp add: CheckMultipleImages_def Let_def)
  have "list_all (\<lambda>out. out \<noteq> None) ?outs"
    unfolding outs by (simp add: list_all_iff)
  then have ret: "list_all (check_returns 64 ?c) ten_jobs"
    by (simp only: goroutine_returns)
  have pos: "(0::int) < 3"
    by simp
  note main = CheckMultipleImages_when_checks_return [of 64 "?c" ten_jobs 3 ten_schedule "Inr ?infos"]
  from main cmi have same: "mset ?infos = mset (verdicts 64 ?c ten_jobs)"
    by blast
  from main pos ret all have short: "length ten_schedule \<le> 4 * length ten_jobs"
    by blast
  have "length ?infos = 9"
    by simp
  with cmi same
  have "\<exists>infos. CheckMultipleImages 64 ?c ten_jobs 3 ten_schedule = Returned (Inr infos)
      \<and> length infos = 9 \<and> mset infos = mset (verdicts 64 ?c ten_jobs)"
    by blast
  with all short show ?thesis
    by blast
qed

text \<open>
  The claim as first worded (whenever a check succeeds, the call returns the successful
  verdicts) fails when another check does not return: of two images, the check of the
  first succeeds and is read by the loop, the check of the second waits for the limiter
  for ever, and the call is blocked for good.
\<close>

theorem CheckMultipleImages_blocked_counterexample:
  "check_succeeds 64 (NewClient 30 1) (hd two_jobs)
   \<and> CheckMultipleImages 64 (NewClient 30 1) two_jobs 3
        [Acquire 0, Acquire 1, CheckReturns 0, Release 0, Receive] = Deadlocked"
  by code_simp

end
